theory Spec2Isabelle
  imports Main
begin

section \<open>The Express handler adapter: \<open>toInterceptor\<close>\<close>

text \<open>
  \<open>toInterceptor(handlerFn)\<close> returns an async function \<open>(context, next)\<close>. It keeps a
  flag \<open>toProceed\<close>, makes the promise \<open>finishing = pEvent(requestCtx, 'close')\<close>, then the
  promise \<open>handling\<close>, whose executor calls \<open>handlerFn\<close> with a callback that settles it,
  awaits \<open>Promise.race([handling, finishing])\<close>, and then either awaits \<open>next()\<close> or returns
  \<open>requestCtx.response\<close>.

  The model starts where \<open>handlerFn\<close> is called, the request context being resolved. What
  the wrapped handler does is the input of the model: the signals it raises during the
  synchronous call of \<open>handlerFn\<close> inside the executor, the exception that ends this call if
  it throws, and what happens afterwards, a sequence of events. An event is a signal, or
  the turn of the job at the head of the queue of jobs (microtasks) of the interceptor's
  own promises: a schedule says which signals come between which of these jobs. When the
  events are over, the jobs left in the queue run. Of the events of the request context
  only \<open>close\<close>, the one named in the call of \<open>pEvent\<close>, is a signal.
\<close>

datatype 'e signal =
    Callback "'e option"  \<comment> \<open>the handler calls its callback; \<open>None\<close> is \<open>err == null\<close>\<close>
  | Close                 \<comment> \<open>the \<open>close\<close> event watched by \<open>pEvent\<close> fires\<close>

datatype 'e event =
    Signal "'e signal"
  | Tick                  \<comment> \<open>the job at the head of the queue runs\<close>

record 'e handler =
  synchronous :: "'e signal list"  \<comment> \<open>raised during the call of \<open>handlerFn\<close>\<close>
  thrown :: "'e option"            \<comment> \<open>the exception that ends the call\<close>
  afterwards :: "'e event list"

datatype 'e promise = Pending | Resolved | Rejected 'e

text \<open>
  The jobs: \<open>Hop n\<close> is a job inside \<open>pEvent\<close>, after which \<open>n\<close> more follow before its
  promise settles; \<open>RaceHandling\<close> and \<open>RaceFinishing\<close> are the reactions by which
  \<open>Promise.race\<close> follows its two promises; \<open>Resume\<close> continues the function after \<open>await\<close>.
\<close>

datatype job = Hop nat | RaceHandling | RaceFinishing | Resume

record 'e pending_handler =
  toProceed :: bool
  handling :: "'e promise"
  closed :: bool                \<comment> \<open>the listener of \<open>pEvent\<close> has fired; it fires once\<close>
  finishing :: "'e promise"
  racing :: bool                \<comment> \<open>\<open>Promise.race\<close> has been called\<close>
  race :: "'e promise"
  jobs :: "job list"
  resumed :: bool               \<comment> \<open>the function has continued after \<open>await\<close>\<close>

definition initial :: "'e pending_handler" where
  "initial = \<lparr>toProceed = False, handling = Pending, closed = False, finishing = Pending,
              racing = False, race = Pending, jobs = [], resumed = False\<rparr>"

definition enqueue :: "job \<Rightarrow> 'e pending_handler \<Rightarrow> 'e pending_handler" where
  "enqueue j s = s\<lparr>jobs := jobs s @ [j]\<rparr>"

text \<open>
  A promise is settled once. When one of the two promises settles, the reaction of
  \<open>Promise.race\<close> to it is queued, if \<open>Promise.race\<close> has been called.
\<close>

definition notify :: "job \<Rightarrow> 'e pending_handler \<Rightarrow> 'e pending_handler" where
  "notify j s = (if racing s then enqueue j s else s)"

definition settle_handling :: "'e promise \<Rightarrow> 'e pending_handler \<Rightarrow> 'e pending_handler" where
  "settle_handling p s =
     (if handling s = Pending then notify RaceHandling (s\<lparr>handling := p\<rparr>) else s)"

definition settle_finishing :: "'e pending_handler \<Rightarrow> 'e pending_handler" where
  "settle_finishing s =
     (if finishing s = Pending then notify RaceFinishing (s\<lparr>finishing := Resolved\<rparr>) else s)"

text \<open>
  \<open>pEvent\<close> is not among the sources. Its promise settles a number of jobs after the event,
  which is the parameter \<open>hops\<close> of the model: 0 if the listener resolves the promise that
  \<open>pEvent\<close> returns, 1 if that promise is a \<open>then\<close> of the one the listener resolves.
\<close>

fun pEvent_hops :: "nat \<Rightarrow> 'e pending_handler \<Rightarrow> 'e pending_handler" where
  "pEvent_hops 0 s = settle_finishing s"
| "pEvent_hops (Suc n) s = enqueue (Hop n) s"

text \<open>
  The callback of the source:
  \<^verbatim>\<open>err => { if (err != null) { reject(err); } else { toProceed = true; resolve(); } }\<close>
\<close>

fun deliver :: "nat \<Rightarrow> 'e pending_handler \<Rightarrow> 'e signal \<Rightarrow> 'e pending_handler" where
  "deliver hops s (Callback (Some err)) = settle_handling (Rejected err) s"
| "deliver hops s (Callback None) = settle_handling Resolved (s\<lparr>toProceed := True\<rparr>)"
| "deliver hops s Close = (if closed s then s else pEvent_hops hops (s\<lparr>closed := True\<rparr>))"

text \<open>
  \<open>new Promise(executor)\<close>: the synchronous call of \<open>handlerFn\<close>. An exception that it
  throws rejects the promise as \<open>reject\<close> does.
\<close>

definition executor :: "nat \<Rightarrow> 'e handler \<Rightarrow> 'e pending_handler" where
  "executor hops handlerFn =
     (let s = foldl (deliver hops) initial (synchronous handlerFn)
      in case thrown handlerFn of None \<Rightarrow> s | Some err \<Rightarrow> settle_handling (Rejected err) s)"

text \<open>
  \<open>Promise.race([handling, finishing])\<close>, called after the executor has returned: it
  subscribes to \<open>handling\<close> first and to \<open>finishing\<close> second, and the reaction to a promise
  that is settled already is queued at once.
\<close>

definition Promise_race :: "'e pending_handler \<Rightarrow> 'e pending_handler" where
  "Promise_race s =
     (let s1 = s\<lparr>racing := True\<rparr>;
          s2 = (if handling s1 \<noteq> Pending then enqueue RaceHandling s1 else s1)
      in if finishing s2 \<noteq> Pending then enqueue RaceFinishing s2 else s2)"

text \<open>
  The reaction that runs first settles the race, with the state of its promise, and queues
  the continuation of the function that awaits the race.
\<close>

definition settle_race :: "'e promise \<Rightarrow> 'e pending_handler \<Rightarrow> 'e pending_handler" where
  "settle_race p s = (if race s = Pending then enqueue Resume (s\<lparr>race := p\<rparr>) else s)"

fun run_job :: "job \<Rightarrow> 'e pending_handler \<Rightarrow> 'e pending_handler" where
  "run_job (Hop n) s = pEvent_hops n s"
| "run_job RaceHandling s = settle_race (handling s) s"
| "run_job RaceFinishing s = settle_race (finishing s) s"
| "run_job Resume s = s\<lparr>resumed := True\<rparr>"

definition tick :: "'e pending_handler \<Rightarrow> 'e pending_handler" where
  "tick s = (case jobs s of [] \<Rightarrow> s | j # js \<Rightarrow> run_job j (s\<lparr>jobs := js\<rparr>))"

fun step :: "nat \<Rightarrow> 'e pending_handler \<Rightarrow> 'e event \<Rightarrow> 'e pending_handler" where
  "step hops s (Signal x) = deliver hops s x"
| "step hops s Tick = tick s"

text \<open>The events, up to the one at which the function continues: it reads its state then.\<close>

fun run_events :: "nat \<Rightarrow> 'e pending_handler \<Rightarrow> 'e event list \<Rightarrow> 'e pending_handler" where
  "run_events hops s [] = s"
| "run_events hops s (ev # evs) =
     (if resumed s then s else run_events hops (step hops s ev) evs)"

text \<open>
  The jobs left in the queue run, until the function continues or the queue is empty. The
  work left in a queue bounds the jobs that can still run.
\<close>

fun weight :: "job \<Rightarrow> nat" where
  "weight (Hop n) = n + 3"
| "weight RaceHandling = 2"
| "weight RaceFinishing = 2"
| "weight Resume = 1"

definition pending_work :: "'e pending_handler \<Rightarrow> nat" where
  "pending_work s = (if resumed s then 0 else sum_list (map weight (jobs s)))"

function drain :: "'e pending_handler \<Rightarrow> 'e pending_handler" where
  "drain s = (if resumed s \<or> jobs s = [] then s else drain (tick s))"
  by pat_completeness auto
termination
proof (relation "measure pending_work")
  show "wf (measure pending_work)" by simp
next
  fix s :: "'e pending_handler"
  assume "\<not> (resumed s \<or> jobs s = [])"
  then obtain j js where j: "\<not> resumed s" "jobs s = j # js" by (cases "jobs s") auto
  have "pending_work (tick s) < pending_work s"
  proof (cases j)
    case (Hop n)
    with j show ?thesis
      by (cases n) (auto simp: tick_def pending_work_def settle_finishing_def notify_def enqueue_def)
  next
    case RaceHandling
    with j show ?thesis by (auto simp: tick_def pending_work_def settle_race_def enqueue_def)
  next
    case RaceFinishing
    with j show ?thesis by (auto simp: tick_def pending_work_def settle_race_def enqueue_def)
  next
    case Resume
    with j show ?thesis by (auto simp: tick_def pending_work_def)
  qed
  then show "(tick s, s) \<in> measure pending_work" by simp
qed

declare drain.simps [simp del]

text \<open>
  \<open>await Promise.race([handling, finishing])\<close>: the state in which the function continues;
  \<open>None\<close> when the queue runs empty before, and the function never continues.
\<close>

definition await_race :: "nat \<Rightarrow> 'e handler \<Rightarrow> 'e pending_handler option" where
  "await_race hops handlerFn =
     (let s = drain (run_events hops (Promise_race (executor hops handlerFn)) (afterwards handlerFn))
      in if resumed s then Some s else None)"

datatype ('e, 'v) outcome = Hangs | Returns 'v | Rejects 'e

text \<open>
  What an invocation of the interceptor did: how often it called \<open>next\<close>, how its promise
  settled, and the state \<open>'d\<close> of the downstream interceptors, which only \<open>next\<close> changes.
\<close>

record ('e, 'v, 'd) invocation =
  next_calls :: nat
  result :: "('e, 'v) outcome"
  downstream :: 'd

definition toInterceptor ::
  "nat \<Rightarrow> 'e handler \<Rightarrow> 'v \<Rightarrow> ('d \<Rightarrow> ('e, 'v) outcome \<times> 'd) \<Rightarrow> 'd \<Rightarrow> ('e, 'v, 'd) invocation" where
  "toInterceptor hops handlerFn response next d =
     (case await_race hops handlerFn of
        None \<Rightarrow> \<lparr>next_calls = 0, result = Hangs, downstream = d\<rparr>
      | Some s \<Rightarrow>
          (case race s of
             Rejected err \<Rightarrow> \<lparr>next_calls = 0, result = Rejects err, downstream = d\<rparr>
           | _ \<Rightarrow>
               if toProceed s
               then (let (val, d') = next d
                     in \<lparr>next_calls = 1, result = val, downstream = d'\<rparr>)
               else \<lparr>next_calls = 0, result = Returns response, downstream = d\<rparr>))"

text \<open>The signals of a handler, in the order in which it raises them.\<close>

definition signals_of :: "'e event list \<Rightarrow> 'e signal list" where
  "signals_of evs = concat (map (\<lambda>ev. case ev of Signal x \<Rightarrow> [x] | Tick \<Rightarrow> []) evs)"

definition signals :: "'e handler \<Rightarrow> 'e signal list" where
  "signals handlerFn = synchronous handlerFn @ signals_of (afterwards handlerFn)"

subsection \<open>Invariants of the state of an invocation\<close>

text \<open>
  What holds of every state that an invocation reaches: the function continues only
  after the race has settled, and is about to continue once it has; the race is rejected
  only with the rejection of \<open>handling\<close>; \<open>finishing\<close> is never rejected; and every promise
  that has a cause to settle has its job in the queue.
\<close>

definition consistent :: "'e pending_handler \<Rightarrow> bool" where
  "consistent s \<longleftrightarrow>
     (resumed s \<longrightarrow> race s \<noteq> Pending)
     \<and> (Resume \<in> set (jobs s) \<longrightarrow> race s \<noteq> Pending)
     \<and> (race s \<noteq> Pending \<longrightarrow> resumed s \<or> Resume \<in> set (jobs s))
     \<and> (\<forall>e. race s = Rejected e \<longrightarrow> handling s = Rejected e)
     \<and> (finishing s = Pending \<or> finishing s = Resolved)
     \<and> (RaceHandling \<in> set (jobs s) \<longrightarrow> handling s \<noteq> Pending)
     \<and> (RaceFinishing \<in> set (jobs s) \<longrightarrow> finishing s \<noteq> Pending)
     \<and> (racing s \<and> handling s \<noteq> Pending \<and> race s = Pending \<longrightarrow> RaceHandling \<in> set (jobs s))
     \<and> (racing s \<and> finishing s \<noteq> Pending \<and> race s = Pending \<longrightarrow> RaceFinishing \<in> set (jobs s))
     \<and> (closed s \<and> finishing s = Pending \<longrightarrow> (\<exists>n. Hop n \<in> set (jobs s)))"

text \<open>The race is built and one of its promises has a cause to settle.\<close>

definition live :: "'e pending_handler \<Rightarrow> bool" where
  "live s \<longleftrightarrow> consistent s \<and> racing s \<and> (handling s \<noteq> Pending \<or> closed s)"

text \<open>The callback has been called with no error, before any error.\<close>

definition proceeding :: "'e pending_handler \<Rightarrow> bool" where
  "proceeding s \<longleftrightarrow> consistent s \<and> toProceed s \<and> handling s = Resolved"

text \<open>
  \<open>handling\<close> has settled and the race is its: the race has taken its state, or its
  reaction is in the queue ahead of the reaction to \<open>finishing\<close>.
\<close>

definition handling_first :: "'e pending_handler \<Rightarrow> bool" where
  "handling_first s \<longleftrightarrow>
     handling s \<noteq> Pending
     \<and> (race s = handling s
        \<or> (race s = Pending
           \<and> RaceFinishing \<notin> set (takeWhile (\<lambda>j. j \<noteq> RaceHandling) (jobs s))
           \<and> (racing s \<longrightarrow> RaceHandling \<in> set (jobs s))
           \<and> (\<not> racing s \<longrightarrow> RaceFinishing \<notin> set (jobs s))))"

definition rejecting :: "'e \<Rightarrow> 'e pending_handler \<Rightarrow> bool" where
  "rejecting e s \<longleftrightarrow> consistent s \<and> handling_first s \<and> handling s = Rejected e"

text \<open>The callback has not been called, and \<open>handling\<close> is in the state \<open>p\<close>.\<close>

definition quiet :: "'e promise \<Rightarrow> 'e pending_handler \<Rightarrow> bool" where
  "quiet p s \<longleftrightarrow> consistent s \<and> \<not> toProceed s \<and> handling s = p"

text \<open>During the synchronous call, before the callback is called.\<close>

definition unraced :: "'e pending_handler \<Rightarrow> bool" where
  "unraced s \<longleftrightarrow>
     consistent s \<and> \<not> racing s \<and> race s = Pending \<and> handling s = Pending
     \<and> RaceFinishing \<notin> set (jobs s)"

section \<open>Options of the invoker: \<open>InvokeMiddlewareProvider\<close> and \<open>invokeMiddleware\<close>\<close>

text \<open>
  An optional property, and a value that may be \<open>undefined\<close>, is an \<open>option\<close>; \<open>a ?? b\<close>
  is \<open>b\<close> exactly when \<open>a\<close> is \<open>null\<close> or \<open>undefined\<close>.
\<close>

definition nullish :: "'a option \<Rightarrow> 'a option \<Rightarrow> 'a option" where
  "nullish a b = (case a of Some x \<Rightarrow> Some x | None \<Rightarrow> b)"

record InvokeMiddlewareOptions =
  extensionPoint :: "string option"
  orderedGroups :: "string list option"

definition MIDDLEWARE_EXTENSION_POINT :: string where
  "MIDDLEWARE_EXTENSION_POINT = ''middleware.defaultChain''"

text \<open>
  A binding, as far as this code reads and writes it: its key, its tags and what it is
  bound to. \<open>CoreTags.EXTENSION_POINT\<close> is declared in \<open>@loopback/core\<close>; it is the tag
  named \<open>extensionPoint\<close>.
\<close>

record 'm Binding =
  key :: string
  tagMap :: "string \<rightharpoonup> string"
  bound :: 'm

definition EXTENSION_POINT :: string where
  "EXTENSION_POINT = ''extensionPoint''"

text \<open>
  The provider: the injected binding (\<open>this.binding?.\<close> allows for none) and the
  \<open>defaultOptions\<close> property, which \<open>@config()\<close> may inject; its initializer is
  \<open>defaultOptions_initializer\<close>.
\<close>

record 'm InvokeMiddlewareProvider =
  binding :: "'m Binding option"
  defaultOptions :: InvokeMiddlewareOptions

definition defaultOptions_initializer :: InvokeMiddlewareOptions where
  "defaultOptions_initializer =
     \<lparr>extensionPoint = Some MIDDLEWARE_EXTENSION_POINT,
      orderedGroups = Some [''cors'', ''apiSpec'', '''']\<rparr>"

text \<open>
  The options that the function returned by \<open>value()\<close> hands to \<open>this.action\<close>, which
  hands them to \<open>invokeMiddleware\<close>.
\<close>

definition InvokeMiddlewareProvider_value ::
  "'m InvokeMiddlewareProvider \<Rightarrow> InvokeMiddlewareOptions option \<Rightarrow> InvokeMiddlewareOptions" where
  "InvokeMiddlewareProvider_value this options =
     (let extensionPointName = Option.bind options extensionPoint;
          orderedGroups' = Option.bind options orderedGroups;
          extensionPointName =
            nullish
              (nullish extensionPointName
                 (Option.bind (binding this) (\<lambda>b. tagMap b EXTENSION_POINT)))
              (extensionPoint (defaultOptions this))
      in \<lparr>extensionPoint = extensionPointName,
          orderedGroups = nullish orderedGroups' (orderedGroups (defaultOptions this))\<rparr>)"

text \<open>
  The first statement of \<open>invokeMiddleware\<close>:
  \<^verbatim>\<open>const {extensionPoint = MIDDLEWARE_EXTENSION_POINT, orderedGroups} = options ?? {};\<close>
  the extension point whose extensions are looked up, and the groups handed to
  \<open>compareBindingsByTag\<close>.
\<close>

definition invokeMiddleware_options ::
  "InvokeMiddlewareOptions option \<Rightarrow> string \<times> string list option" where
  "invokeMiddleware_options options =
     (case options of
        None \<Rightarrow> (MIDDLEWARE_EXTENSION_POINT, None)
      | Some opts \<Rightarrow>
          (case extensionPoint opts of
             None \<Rightarrow> (MIDDLEWARE_EXTENSION_POINT, orderedGroups opts)
           | Some e \<Rightarrow> (e, orderedGroups opts)))"

section \<open>Registering middleware: \<open>asMiddleware\<close> and \<open>registerMiddleware\<close>\<close>

record MiddlewareBindingOptions =
  injectConfiguration :: "bool option"
  providerClassName :: "string option"
  options_key :: "string option"  \<comment> \<open>the property \<open>key\<close>\<close>
  group :: "string option"
  extensionPointName :: "string option"

text \<open>\<open>isProviderClass\<close> tells a provider class from a middleware function.\<close>

datatype ('f, 'p) middleware = MiddlewareFunction 'f | ProviderClass 'p

datatype 'x failure = AssertionError string | Thrown 'x

text \<open>
  \<open>asMiddleware(options)\<close> is a binding template: it applies \<open>extensionFor(...)\<close>, a
  template of \<open>@loopback/core\<close> that is a parameter here, and then sets the tag \<open>group\<close>.
\<close>

definition asMiddleware ::
  "(string \<Rightarrow> 'm Binding \<Rightarrow> 'm Binding) \<Rightarrow> MiddlewareBindingOptions \<Rightarrow> 'm Binding \<Rightarrow> 'm Binding" where
  "asMiddleware extensionFor options b =
     (let b' = extensionFor
                 (case extensionPointName options of
                    Some n \<Rightarrow> n | None \<Rightarrow> MIDDLEWARE_EXTENSION_POINT) b
      in b'\<lparr>tagMap := (tagMap b')(''group'' \<mapsto> (case group options of Some g \<Rightarrow> g | None \<Rightarrow> ''''))\<rparr>)"

text \<open>
  \<open>createMiddlewareBinding\<close>: \<open>createBindingFromClass\<close> of \<open>@loopback/context\<close> is a
  parameter, called with the class and \<open>options.key\<close> (scope and namespace are constants).
  The two defaults are set as in the source; only the extension point is read afterwards.
\<close>

definition createMiddlewareBinding ::
  "('p \<Rightarrow> string option \<Rightarrow> 'm Binding) \<Rightarrow> (string \<Rightarrow> 'm Binding \<Rightarrow> 'm Binding)
   \<Rightarrow> 'p \<Rightarrow> MiddlewareBindingOptions \<Rightarrow> 'm Binding" where
  "createMiddlewareBinding createBindingFromClass extensionFor middlewareProviderClass options =
     (let options = options\<lparr>injectConfiguration :=
                              nullish (injectConfiguration options) (Some True)\<rparr>;
          options = options\<lparr>extensionPointName :=
                              nullish (extensionPointName options) (Some MIDDLEWARE_EXTENSION_POINT)\<rparr>
      in asMiddleware extensionFor options
           (createBindingFromClass middlewareProviderClass (options_key options)))"

text \<open>
  \<open>registerMiddleware\<close>: the context is the map from keys to its bindings; \<open>ctx.add\<close> and
  \<open>ctx.bind\<close> store the binding under its key. \<open>assert(options.key, ...)\<close> fails on a
  missing and on an empty key.
\<close>

definition registerMiddleware ::
  "('p \<Rightarrow> string option \<Rightarrow> ('f, 'p) middleware Binding)
   \<Rightarrow> (string \<Rightarrow> ('f, 'p) middleware Binding \<Rightarrow> ('f, 'p) middleware Binding)
   \<Rightarrow> (string \<rightharpoonup> ('f, 'p) middleware Binding) \<Rightarrow> ('f, 'p) middleware \<Rightarrow> MiddlewareBindingOptions
   \<Rightarrow> 'x failure + (string \<rightharpoonup> ('f, 'p) middleware Binding) \<times> ('f, 'p) middleware Binding" where
  "registerMiddleware createBindingFromClass extensionFor ctx middleware options =
     (case middleware of
        ProviderClass c \<Rightarrow>
          (let b = createMiddlewareBinding createBindingFromClass extensionFor c options
           in Inr (ctx(key b \<mapsto> b), b))
      | MiddlewareFunction f \<Rightarrow>
          (case options_key options of
             None \<Rightarrow> Inl (AssertionError ''options.key is missing.'')
           | Some k \<Rightarrow>
               if k = '''' then Inl (AssertionError ''options.key is missing.'')
               else (let b = asMiddleware extensionFor options
                               \<lparr>key = k, tagMap = Map.empty, bound = MiddlewareFunction f\<rparr>
                     in Inr (ctx(key b \<mapsto> b), b))))"

section \<open>Provider classes for Express middleware: \<open>buildName\<close> and \<open>defineInterceptorProvider\<close>\<close>

text \<open>A factory function, as far as this code reads it: its \<open>name\<close> property.\<close>

record ExpressMiddlewareFactory =
  name :: string

text \<open>The class \<open>\w\<close> of a regular expression: letters, digits and the underscore.\<close>

definition word_char :: "char \<Rightarrow> bool" where
  "word_char c \<longleftrightarrow>
     c \<in> set (''abcdefghijklmnopqrstuvwxyz'' @ ''ABCDEFGHIJKLMNOPQRSTUVWXYZ''
                @ ''0123456789'' @ ''_'')"

text \<open>\<^verbatim>\<open>name.replace(/[^\w]/g, '_')\<close>\<close>

definition replace_non_word :: "string \<Rightarrow> string" where
  "replace_non_word s = map (\<lambda>c. if word_char c then c else CHR ''_'') s"

text \<open>
  \<open>buildName\<close>. A string is falsy when it is missing or empty, so \<open>!providedName\<close> holds
  for \<open>None\<close> and for \<open>Some ''''\<close>.
\<close>

definition buildName ::
  "ExpressMiddlewareFactory \<Rightarrow> string option \<Rightarrow> string option \<Rightarrow> string option" where
  "buildName middlewareFactory providedName suffix =
     (if providedName = None \<or> providedName = Some ''''
      then (let name' = replace_non_word (name middlewareFactory)
            in if name' \<noteq> ''''
               then Some (name' @ (case suffix of Some s \<Rightarrow> s | None \<Rightarrow> ''''))
               else providedName)
      else providedName)"

text \<open>
  \<open>defineInterceptorProvider\<close>: after the assertion, the class is made by the \<open>Function\<close>
  constructor from a source text that holds \<open>className\<close>, and decorated. What the
  JavaScript runtime makes of that text is the parameter \<open>defineNamedClass\<close>: the class,
  or the exception thrown.
\<close>

definition defineInterceptorProvider ::
  "(string \<Rightarrow> 'x + 'cls) \<Rightarrow> ExpressMiddlewareFactory \<Rightarrow> string option \<Rightarrow> 'x failure + 'cls" where
  "defineInterceptorProvider defineNamedClass middlewareFactory className =
     (case buildName middlewareFactory className None of
        None \<Rightarrow> Inl (AssertionError ''className is missing and it cannot be inferred.'')
      | Some className' \<Rightarrow>
          if className' = ''''
          then Inl (AssertionError ''className is missing and it cannot be inferred.'')
          else (case defineNamedClass className' of
                  Inl x \<Rightarrow> Inl (Thrown x)
                | Inr cls \<Rightarrow> Inr cls))"

section \<open>The chain of middleware: discovery, ordering, execution\<close>

text \<open>
  \<open>invokeMiddleware\<close> builds a \<open>MiddlewareChain\<close> from the request context, the filter of
  the extension point and \<open>compareBindingsByTag('group', orderedGroups)\<close>, and calls its
  \<open>invokeInterceptors()\<close>. The chain class, the comparator and the lookup of the bindings
  are in \<open>@loopback/context\<close> and \<open>@loopback/core\<close>, which are not among the sources, and
  are modelled from the specification.
\<close>

text \<open>
  Modelled from the spec: the errors of a chain execution (section 7), the one the chain
  raises itself and those that its entries raise.
\<close>

datatype 'e chain_error = InvalidChainUsage | HandlerError 'e

text \<open>
  Modelled from the spec: what \<open>next\<close> returns, the result of an entry or the sentinel of
  the end of the chain (section 4.2).
\<close>

datatype 'r chain_value = EndOfChain | Value 'r

text \<open>
  Modelled from the spec: the callable of an entry (the interceptor functions are not
  among the sources). It is the program of what the function does with its two
  arguments: it finishes with a result or an error, reads and writes the request context,
  registers and deregisters entries, and calls \<open>next\<close> and goes on with what that gave.
\<close>

datatype ('c, 'e, 'r) callable_of =
    Done "('e chain_error, 'r chain_value) outcome"
  | Update "'c \<Rightarrow> 'c" "('c, 'e, 'r) callable_of"
  | Read "'c \<Rightarrow> ('c, 'e, 'r) callable_of"
  | Register string string string "('c, 'e, 'r) callable_of" "('c, 'e, 'r) callable_of"
  | Deregister string string "('c, 'e, 'r) callable_of"
  | CallNext "('e chain_error, 'r chain_value) outcome \<Rightarrow> ('c, 'e, 'r) callable_of"

text \<open>Modelled from the spec: the Interceptor Entry \<open>{identity, group, callable}\<close> (section 3).\<close>

record ('c, 'e, 'r) entry =
  identity :: string
  entry_group :: string  \<comment> \<open>the field \<open>group\<close>\<close>
  callable :: "('c, 'e, 'r) callable_of"

text \<open>
  Modelled from the spec: what a request works on, the request context (a bag of values)
  and the entry set of the Registry Adapter by extension point, with the record of the
  entries that the chain has invoked, in the order of their invocation.
\<close>

record ('c, 'e, 'r) world =
  requestCtx :: 'c
  registry :: "string \<Rightarrow> ('c, 'e, 'r) entry list"
  invoked :: "string list"

text \<open>
  Modelled from the spec: \<open>findEntriesForExtensionPoint\<close> of the Registry Adapter
  (section 6) returns the current entries of the extension point as a value.
\<close>

definition findEntriesForExtensionPoint ::
  "('c, 'e, 'r) world \<Rightarrow> string \<Rightarrow> ('c, 'e, 'r) entry list" where
  "findEntriesForExtensionPoint w extensionPoint' = registry w extensionPoint'"

text \<open>
  Modelled from the spec: the Group Order Resolver (section 4.1; the comparator
  \<open>compareBindingsByTag\<close> and the sort are not among the sources). An entry whose group is
  in the preference has that group's position; any other entry has the position of the
  empty-string marker when the preference holds it, and comes after all positions
  otherwise. The sort is stable.
\<close>

text \<open>Modelled from the spec: the position of a group in the preference, from 0.\<close>

definition position :: "string \<Rightarrow> string list \<Rightarrow> nat" where
  "position g preference = length (takeWhile (\<lambda>x. x \<noteq> g) preference)"

text \<open>Modelled from the spec: the position at which an entry of group \<open>g\<close> is placed.\<close>

definition group_rank :: "string list \<Rightarrow> string \<Rightarrow> nat" where
  "group_rank preference g =
     (if g \<in> set preference then position g preference
      else if '''' \<in> set preference then position '''' preference
      else length preference)"

text \<open>Modelled from the spec: \<open>resolve(entries, preference)\<close>, a stable sort by that position.\<close>

definition resolve_order ::
  "('c, 'e, 'r) entry list \<Rightarrow> string list \<Rightarrow> ('c, 'e, 'r) entry list" where
  "resolve_order entries preference =
     sort_key (\<lambda>e. group_rank preference (entry_group e)) entries"

text \<open>
  Modelled from the spec: the Interceptor Chain (section 4.2; \<open>GenericInterceptorChain\<close>
  is not among the sources). \<open>run_callable c next called w\<close> runs the callable of one
  entry, \<open>next\<close> being the rest of the chain and \<open>called\<close> telling whether this entry has
  called it already: a second call is \<open>InvalidChainUsage\<close>, which is fatal to the chain,
  and a \<open>next\<close> that hangs leaves its caller hanging.
\<close>

primrec run_callable ::
  "('c, 'e, 'r) callable_of
   \<Rightarrow> (('c, 'e, 'r) world \<Rightarrow> ('e chain_error, 'r chain_value) outcome \<times> ('c, 'e, 'r) world)
   \<Rightarrow> bool \<Rightarrow> ('c, 'e, 'r) world
   \<Rightarrow> ('e chain_error, 'r chain_value) outcome \<times> ('c, 'e, 'r) world" where
  "run_callable (Done out) next called w = (out, w)"
| "run_callable (Update f c) next called w =
     run_callable c next called (w\<lparr>requestCtx := f (requestCtx w)\<rparr>)"
| "run_callable (Read k) next called w = run_callable (k (requestCtx w)) next called w"
| "run_callable (Register point ident grp c' c) next called w =
     run_callable c next called
       (w\<lparr>registry := (registry w)
            (point := registry w point @ [\<lparr>identity = ident, entry_group = grp, callable = c'\<rparr>])\<rparr>)"
| "run_callable (Deregister point ident c) next called w =
     run_callable c next called
       (w\<lparr>registry := (registry w)
            (point := filter (\<lambda>e. identity e \<noteq> ident) (registry w point))\<rparr>)"
| "run_callable (CallNext k) next called w =
     (if called then (Rejects InvalidChainUsage, w)
      else (case next w of
              (Rejects InvalidChainUsage, w') \<Rightarrow> (Rejects InvalidChainUsage, w')
            | (Hangs, w') \<Rightarrow> (Hangs, w')
            | (out, w') \<Rightarrow> run_callable (k out) next True w'))"

text \<open>
  Modelled from the spec: \<open>invoke(orderedEntries, context)\<close>. Invoking entry \<open>i\<close> hands it
  a \<open>next\<close> that runs entry \<open>i + 1\<close>; after the last entry \<open>next\<close> yields the end-of-chain
  sentinel.
\<close>

primrec invokeInterceptors ::
  "('c, 'e, 'r) entry list \<Rightarrow> ('c, 'e, 'r) world
   \<Rightarrow> ('e chain_error, 'r chain_value) outcome \<times> ('c, 'e, 'r) world" where
  "invokeInterceptors [] w = (Returns EndOfChain, w)"
| "invokeInterceptors (e # es) w =
     run_callable (callable e) (invokeInterceptors es) False
       (w\<lparr>invoked := invoked w @ [identity e]\<rparr>)"

text \<open>
  Modelled from the spec: the chain that \<open>new MiddlewareChain(requestCtx, filter,
  comparator)\<close> stands for, the entries of the extension point found at that moment, in
  the order of the groups; no groups is the empty preference.
\<close>

definition MiddlewareChain ::
  "('c, 'e, 'r) world \<Rightarrow> string \<Rightarrow> string list option \<Rightarrow> ('c, 'e, 'r) entry list" where
  "MiddlewareChain w extensionPoint' orderedGroups' =
     resolve_order (findEntriesForExtensionPoint w extensionPoint')
       (case orderedGroups' of None \<Rightarrow> [] | Some groups \<Rightarrow> groups)"

text \<open>\<open>invokeMiddleware\<close> of the source, over these.\<close>

definition invokeMiddleware ::
  "('c, 'e, 'r) world \<Rightarrow> InvokeMiddlewareOptions option
   \<Rightarrow> ('e chain_error, 'r chain_value) outcome \<times> ('c, 'e, 'r) world" where
  "invokeMiddleware w options =
     (let (extensionPoint', orderedGroups') = invokeMiddleware_options options;
          chain = MiddlewareChain w extensionPoint' orderedGroups'
      in invokeInterceptors chain w)"

text \<open>
  Modelled from the spec: an entry that calls \<open>next\<close> exactly once and returns its
  result, the normal pass-through of section 4.2 (a).
\<close>

definition pass_through :: "('c, 'e, 'r) callable_of" where
  "pass_through = CallNext Done"

subsection \<open>What a chain execution shows\<close>

text \<open>
  Modelled from the spec: what a chain execution shows of a world, the request context and
  the entries invoked, in the order of their invocation; the registry is not part of it.
\<close>

definition observe :: "('c, 'e, 'r) world \<Rightarrow> 'c \<times> string list" where
  "observe w = (requestCtx w, invoked w)"

text \<open>Modelled from the spec: the result of a chain execution and what it shows.\<close>

definition observed ::
  "('e chain_error, 'r chain_value) outcome \<times> ('c, 'e, 'r) world
   \<Rightarrow> ('e chain_error, 'r chain_value) outcome \<times> 'c \<times> string list" where
  "observed r = (fst r, observe (snd r))"

text \<open>
  Modelled from the spec: the callable of an entry run on the request context and the
  entries invoked alone, \<open>next\<close> being the rest of the chain. There is no registry: what
  the callable does to it, \<open>Register\<close> and \<open>Deregister\<close>, is passed over.
\<close>

primrec run_entry ::
  "('c, 'e, 'r) callable_of
   \<Rightarrow> ('c \<times> string list \<Rightarrow> ('e chain_error, 'r chain_value) outcome \<times> 'c \<times> string list)
   \<Rightarrow> bool \<Rightarrow> 'c \<times> string list
   \<Rightarrow> ('e chain_error, 'r chain_value) outcome \<times> 'c \<times> string list" where
  "run_entry (Done out) next called v = (out, v)"
| "run_entry (Update f c) next called v = run_entry c next called (f (fst v), snd v)"
| "run_entry (Read k) next called v = run_entry (k (fst v)) next called v"
| "run_entry (Register point ident grp c' c) next called v = run_entry c next called v"
| "run_entry (Deregister point ident c) next called v = run_entry c next called v"
| "run_entry (CallNext k) next called v =
     (if called then (Rejects InvalidChainUsage, v)
      else (case next v of
              (Rejects InvalidChainUsage, v') \<Rightarrow> (Rejects InvalidChainUsage, v')
            | (Hangs, v') \<Rightarrow> (Hangs, v')
            | (out, v') \<Rightarrow> run_entry (k out) next True v'))"

text \<open>
  Modelled from the spec: \<open>invoke(orderedEntries, context)\<close> of section 4.2 on a fixed
  list of entries, the snapshot: every entry and its callable are taken from the list,
  and nothing is looked up while the chain runs.
\<close>

primrec invoke ::
  "('c, 'e, 'r) entry list \<Rightarrow> 'c \<times> string list
   \<Rightarrow> ('e chain_error, 'r chain_value) outcome \<times> 'c \<times> string list" where
  "invoke [] v = (Returns EndOfChain, v)"
| "invoke (e # es) v =
     run_entry (callable e) (invoke es) False (fst v, snd v @ [identity e])"

text \<open>
  Modelled from the spec: the callable calls \<open>next\<close>, whatever it reads in the request
  context (section 4.2 (a)).
\<close>

primrec calls_next :: "('c, 'e, 'r) callable_of \<Rightarrow> bool" where
  "calls_next (Done out) = False"
| "calls_next (Update f c) = calls_next c"
| "calls_next (Read k) = (\<forall>x. calls_next (k x))"
| "calls_next (Register point ident grp c' c) = calls_next c"
| "calls_next (Deregister point ident c) = calls_next c"
| "calls_next (CallNext k) = True"

section \<open>Properties of the adapter\<close>

lemmas evaluation = toInterceptor_def await_race_def executor_def initial_def settle_handling_def
  settle_finishing_def notify_def enqueue_def Promise_race_def tick_def settle_race_def Let_def
  signals_def signals_of_def

lemma drain_done [simp]: "resumed s \<or> jobs s = [] \<Longrightarrow> drain s = s"
  by (subst drain.simps) simp

lemma drain_tick [simp]: "\<not> resumed s \<Longrightarrow> jobs s \<noteq> [] \<Longrightarrow> drain s = drain (tick s)"
  by (subst drain.simps) simp


lemma consistent_initial: "consistent initial"
  by (simp add: consistent_def initial_def)

lemma consistent_settle_handling: "consistent s \<Longrightarrow> p \<noteq> Pending \<Longrightarrow> consistent (settle_handling p s)"
  by (auto simp: consistent_def settle_handling_def notify_def enqueue_def)

lemma consistent_toProceed: "consistent s \<Longrightarrow> consistent (s\<lparr>toProceed := b\<rparr>)"
  by (simp add: consistent_def)

lemma consistent_settle_finishing: "consistent s \<Longrightarrow> consistent (settle_finishing s)"
  by (auto simp: consistent_def settle_finishing_def notify_def enqueue_def)

lemma consistent_close: "consistent s \<Longrightarrow> \<not> closed s \<Longrightarrow> consistent (pEvent_hops hops (s\<lparr>closed := True\<rparr>))"
  by (cases hops) (auto simp: consistent_def settle_finishing_def notify_def enqueue_def)

lemma consistent_deliver: "consistent s \<Longrightarrow> consistent (deliver hops s x)"
  by (cases "(hops, s, x)" rule: deliver.cases)
     (simp_all add: consistent_settle_handling consistent_toProceed consistent_close)

lemma consistent_Promise_race: "consistent s \<Longrightarrow> consistent (Promise_race s)"
  by (auto simp: consistent_def Promise_race_def enqueue_def Let_def)

lemma consistent_settle_race_handling:
  "consistent s \<Longrightarrow> handling s \<noteq> Pending \<Longrightarrow> consistent (settle_race (handling s) s)"
  by (auto simp: consistent_def settle_race_def enqueue_def)

lemma consistent_settle_race_finishing:
  "consistent s \<Longrightarrow> finishing s \<noteq> Pending \<Longrightarrow> consistent (settle_race (finishing s) s)"
  by (auto simp: consistent_def settle_race_def enqueue_def)

lemma consistent_dequeue:
  "consistent s \<Longrightarrow> jobs s = j # js \<Longrightarrow> consistent (run_job j (s\<lparr>jobs := js\<rparr>))"
proof (cases j)
  case (Hop n)
  assume a: "consistent s" "jobs s = j # js"
  show ?thesis
  proof (cases n)
    case 0
    with a Hop show ?thesis
      by (auto simp: consistent_def settle_finishing_def notify_def enqueue_def)
  next
    case (Suc m)
    with a Hop show ?thesis
      by (auto simp: consistent_def enqueue_def)
  qed
next
  case RaceHandling
  assume a: "consistent s" "jobs s = j # js"
  with RaceHandling show ?thesis
    by (auto simp: consistent_def settle_race_def enqueue_def)
next
  case RaceFinishing
  assume a: "consistent s" "jobs s = j # js"
  with RaceFinishing show ?thesis
    by (auto simp: consistent_def settle_race_def enqueue_def)
next
  case Resume
  assume a: "consistent s" "jobs s = j # js"
  with Resume show ?thesis
    by (auto simp: consistent_def)
qed

lemma consistent_tick: "consistent s \<Longrightarrow> consistent (tick s)"
  by (cases "jobs s") (simp_all add: tick_def consistent_dequeue)

text \<open>What holds of a state and is kept by every step is kept to the end.\<close>

lemma kept_run_events:
  assumes "\<And>s x. Q s \<Longrightarrow> A x \<Longrightarrow> Q (deliver hops s x)" and "\<And>s. Q s \<Longrightarrow> Q (tick s)"
  shows "Q s \<Longrightarrow> \<forall>x \<in> set (signals_of evs). A x \<Longrightarrow> Q (run_events hops s evs)"
proof (induction evs arbitrary: s)
  case Nil
  then show ?case by simp
next
  case (Cons ev evs)
  show ?case
  proof (cases ev)
    case (Signal x)
    with Cons.prems have "Q (deliver hops s x)" by (auto simp: signals_of_def assms(1))
    with Cons.IH [of "deliver hops s x"] Cons.prems show ?thesis
      by (simp add: Signal signals_of_def)
  next
    case Tick
    with Cons.IH [of "tick s"] Cons.prems assms(2) [of s] show ?thesis
      by (simp add: signals_of_def)
  qed
qed

lemma kept_drain:
  assumes "\<And>s. Q s \<Longrightarrow> Q (tick s)"
  shows "Q s \<Longrightarrow> Q (drain s)"
proof (induction s rule: drain.induct)
  case (1 s)
  show ?case
  proof (cases "resumed s \<or> jobs s = []")
    case True
    with "1.prems" show ?thesis by simp
  next
    case False
    with "1.IH" assms [OF "1.prems"] show ?thesis by simp
  qed
qed

lemma kept_foldl:
  assumes "\<And>s x. Q s \<Longrightarrow> A x \<Longrightarrow> Q (deliver hops s x)"
  shows "Q s \<Longrightarrow> \<forall>x \<in> set xs. A x \<Longrightarrow> Q (foldl (deliver hops) s xs)"
  by (induction xs arbitrary: s) (simp_all add: assms)

lemma live_deliver: "live s \<Longrightarrow> live (deliver hops s x)"
proof -
  assume l: "live s"
  then have "consistent (deliver hops s x)" by (simp add: live_def consistent_deliver)
  moreover from l have "racing (deliver hops s x)
      \<and> (handling (deliver hops s x) \<noteq> Pending \<or> closed (deliver hops s x))"
    by (cases "(hops, s, x)" rule: deliver.cases; cases hops)
       (auto simp: live_def settle_handling_def notify_def enqueue_def settle_finishing_def)
  ultimately show ?thesis by (simp add: live_def)
qed

lemma live_tick: "live s \<Longrightarrow> live (tick s)"
proof -
  assume l: "live s"
  then have "consistent (tick s)" by (simp add: live_def consistent_tick)
  moreover have "racing (tick s) \<and> (handling (tick s) \<noteq> Pending \<or> closed (tick s))"
  proof (cases "jobs s")
    case Nil
    with l show ?thesis by (simp add: tick_def live_def)
  next
    case (Cons j js)
    with l show ?thesis
      by (cases j; cases "case j of Hop n \<Rightarrow> n | _ \<Rightarrow> 0")
         (auto simp: tick_def live_def settle_race_def settle_finishing_def notify_def enqueue_def)
  qed
  ultimately show ?thesis by (simp add: live_def)
qed

lemma live_drain_resumed: "live s \<Longrightarrow> resumed (drain s)"
proof (induction s rule: drain.induct)
  case (1 s)
  show ?case
  proof (cases "resumed s")
    case True
    then show ?thesis by simp
  next
    case False
    show ?thesis
    proof (cases "jobs s")
      case Nil
      with "1.prems" False show ?thesis by (auto simp: live_def consistent_def)
    next
      case (Cons j js)
      with False "1.IH" live_tick [OF "1.prems"] show ?thesis by simp
    qed
  qed
qed

text \<open>What the jobs leave alone.\<close>

lemma tick_frame:
  "toProceed (tick s) = toProceed s" "handling (tick s) = handling s"
  "closed (tick s) = closed s" "racing (tick s) = racing s"
proof -
  have "toProceed (tick s) = toProceed s \<and> handling (tick s) = handling s
      \<and> closed (tick s) = closed s \<and> racing (tick s) = racing s"
  proof (cases "jobs s")
    case Nil
    then show ?thesis by (simp add: tick_def)
  next
    case (Cons j js)
    then show ?thesis
      by (cases j; cases "case j of Hop n \<Rightarrow> n | _ \<Rightarrow> 0")
         (auto simp: tick_def settle_race_def settle_finishing_def notify_def enqueue_def)
  qed
  then show "toProceed (tick s) = toProceed s" "handling (tick s) = handling s"
    "closed (tick s) = closed s" "racing (tick s) = racing s"
    by simp_all
qed

lemma deliver_Close_frame:
  "toProceed (deliver hops s Close) = toProceed s" "handling (deliver hops s Close) = handling s"
  "racing (deliver hops s Close) = racing s" "closed (deliver hops s Close)"
  by (cases hops; simp add: settle_finishing_def notify_def enqueue_def)+

lemma deliver_settled:
  "handling s \<noteq> Pending \<Longrightarrow> handling (deliver hops s x) = handling s"
  by (cases "(hops, s, x)" rule: deliver.cases; cases hops)
     (simp_all add: settle_handling_def settle_finishing_def notify_def enqueue_def)

lemma deliver_toProceed: "toProceed s \<Longrightarrow> toProceed (deliver hops s x)"
  by (cases "(hops, s, x)" rule: deliver.cases; cases hops)
     (simp_all add: settle_handling_def settle_finishing_def notify_def enqueue_def)

lemma deliver_racing: "racing (deliver hops s x) = racing s"
  by (cases "(hops, s, x)" rule: deliver.cases; cases hops)
     (simp_all add: settle_handling_def settle_finishing_def notify_def enqueue_def)

lemma settle_handling_frame:
  "toProceed (settle_handling p s) = toProceed s" "racing (settle_handling p s) = racing s"
  "closed (settle_handling p s) = closed s"
  "handling s \<noteq> Pending \<Longrightarrow> handling (settle_handling p s) = handling s"
  "handling s = Pending \<Longrightarrow> handling (settle_handling p s) = p"
  by (simp_all add: settle_handling_def notify_def enqueue_def)

lemma Promise_race_frame:
  "toProceed (Promise_race s) = toProceed s" "handling (Promise_race s) = handling s"
  "closed (Promise_race s) = closed s" "racing (Promise_race s)"
  "resumed (Promise_race s) = resumed s"
  by (simp_all add: Promise_race_def enqueue_def Let_def)

text \<open>The end of an invocation, from the state in which the race is built.\<close>

lemma live_run_events: "live s \<Longrightarrow> live (run_events hops s evs)"
proof (induction evs arbitrary: s)
  case Nil
  then show ?case by simp
next
  case (Cons ev evs)
  then show ?case
    by (cases ev) (simp_all add: live_deliver live_tick)
qed

lemma ending:
  assumes d: "\<And>s x. Q s \<Longrightarrow> A x \<Longrightarrow> Q (deliver hops s x)" and t: "\<And>s. Q s \<Longrightarrow> Q (tick s)"
    and q0: "Q s" and l0: "live s" and a: "\<forall>x \<in> set (signals_of evs). A x"
  shows "Q (drain (run_events hops s evs)) \<and> live (drain (run_events hops s evs))
       \<and> resumed (drain (run_events hops s evs))"
proof -
  have "Q (run_events hops s evs)"
    by (rule kept_run_events [of Q A hops s evs]) (use d t q0 a in auto)
  then have q: "Q (drain (run_events hops s evs))"
    by (rule kept_drain [of Q, rotated]) (use t in auto)
  have lr: "live (run_events hops s evs)"
    using l0 by (rule live_run_events)
  then have l: "live (drain (run_events hops s evs))"
    by (rule kept_drain [of live, rotated]) (use live_tick in auto)
  from lr have "resumed (drain (run_events hops s evs))" by (rule live_drain_resumed)
  with q l show ?thesis by simp
qed

lemma drain_drain: "drain (drain s) = drain s"
proof (induction s rule: drain.induct)
  case (1 s)
  show ?case
  proof (cases "resumed s \<or> jobs s = []")
    case True
    then show ?thesis by simp
  next
    case False
    with "1.IH" show ?thesis by simp
  qed
qed

text \<open>Jobs that get their turn before the first signal find nothing to do.\<close>

lemma skip_ticks:
  "jobs s = [] \<Longrightarrow> \<not> resumed s \<Longrightarrow> signals_of evs = x # rest
   \<Longrightarrow> \<exists>evs'. signals_of evs' = rest \<and> run_events hops s evs = run_events hops (deliver hops s x) evs'"
proof (induction evs)
  case Nil
  then show ?case by (simp add: signals_of_def)
next
  case (Cons ev evs)
  show ?case
  proof (cases ev)
    case (Signal y)
    with Cons.prems have "y = x" "signals_of evs = rest" by (simp_all add: signals_of_def)
    with Cons.prems Signal show ?thesis by auto
  next
    case Tick
    with Cons.prems have "signals_of evs = x # rest" by (simp add: signals_of_def)
    from Cons.IH [OF Cons.prems(1,2) this] Cons.prems Tick show ?thesis
      by (simp add: tick_def)
  qed
qed

lemma proceeding_deliver: "proceeding s \<Longrightarrow> proceeding (deliver hops s x)"
  by (simp add: proceeding_def consistent_deliver deliver_toProceed deliver_settled)

lemma proceeding_tick: "proceeding s \<Longrightarrow> proceeding (tick s)"
  by (simp add: proceeding_def consistent_tick tick_frame)

lemma proceeding_first:
  "consistent s \<Longrightarrow> handling s = Pending \<Longrightarrow> proceeding (deliver hops s (Callback None))"
  using consistent_deliver [of s hops "Callback None"]
  by (simp add: proceeding_def settle_handling_def notify_def enqueue_def)

lemma proceeding_end:
  assumes "proceeding s" and "racing s"
  shows "resumed (drain (run_events hops s evs))
         \<and> toProceed (drain (run_events hops s evs))
         \<and> (\<forall>e. race (drain (run_events hops s evs)) \<noteq> Rejected e)"
proof -
  from assms have "live s" by (simp add: live_def proceeding_def)
  with ending [of proceeding "\<lambda>x. True" hops s evs] assms(1)
  have "proceeding (drain (run_events hops s evs))" "resumed (drain (run_events hops s evs))"
    by (auto simp: proceeding_deliver proceeding_tick)
  then show ?thesis by (auto simp: proceeding_def consistent_def)
qed

lemma toInterceptor_resumed:
  assumes "resumed (drain (run_events hops
             (Promise_race (case thrown handlerFn of
                              None \<Rightarrow> foldl (deliver hops) initial (synchronous handlerFn)
                            | Some err \<Rightarrow> settle_handling (Rejected err)
                                          (foldl (deliver hops) initial (synchronous handlerFn))))
             (afterwards handlerFn)))"
  shows "await_race hops handlerFn = Some (drain (run_events hops
             (Promise_race (case thrown handlerFn of
                              None \<Rightarrow> foldl (deliver hops) initial (synchronous handlerFn)
                            | Some err \<Rightarrow> settle_handling (Rejected err)
                                          (foldl (deliver hops) initial (synchronous handlerFn))))
             (afterwards handlerFn)))"
  using assms by (simp add: await_race_def executor_def Let_def)

lemma proceeding_throw:
  "proceeding s \<Longrightarrow> proceeding (case t of None \<Rightarrow> s | Some err \<Rightarrow> settle_handling (Rejected err) s)"
  by (cases t) (simp_all add: proceeding_def settle_handling_def)

lemma proceeding_Promise_race: "proceeding s \<Longrightarrow> proceeding (Promise_race s)"
  by (simp add: proceeding_def consistent_Promise_race Promise_race_frame)

text \<open>
  C1. When the first signal of the wrapped handler is its callback with no error (so it
  comes before the close event, and before an exception of the handler: one that ends a
  synchronous call without signals comes before every signal), the interceptor calls
  \<open>next()\<close> exactly once, and what it returns, and what it leaves downstream, is what
  \<open>next()\<close> produced; for every schedule of the jobs, and however many jobs \<open>pEvent\<close> takes.
\<close>

theorem toInterceptor_proceed:
  assumes "signals handlerFn = Callback None # rest"
    and "synchronous handlerFn = [] \<longrightarrow> thrown handlerFn = None"
  shows "toInterceptor hops handlerFn response next d =
           \<lparr>next_calls = 1, result = fst (next d), downstream = snd (next d)\<rparr>"
proof -
  let ?s2 = "case thrown handlerFn of
               None \<Rightarrow> foldl (deliver hops) initial (synchronous handlerFn)
             | Some err \<Rightarrow> settle_handling (Rejected err)
                           (foldl (deliver hops) initial (synchronous handlerFn))"
  let ?s4 = "drain (run_events hops (Promise_race ?s2) (afterwards handlerFn))"
  have "\<exists>s evs. proceeding s \<and> racing s \<and> ?s4 = drain (run_events hops s evs)"
  proof (cases "synchronous handlerFn")
    case Nil
    with assms have t: "thrown handlerFn = None"
      and l: "signals_of (afterwards handlerFn) = Callback None # rest"
      by (simp_all add: signals_def)
    let ?r = "Promise_race (initial :: 'a pending_handler)"
    have r: "jobs ?r = []" "\<not> resumed ?r" "consistent ?r" "handling ?r = Pending" "racing ?r"
      using consistent_Promise_race [OF consistent_initial]
      by (simp_all add: Promise_race_def initial_def Let_def)
    from skip_ticks [OF r(1,2) l, of hops] obtain evs' where
      "run_events hops ?r (afterwards handlerFn) = run_events hops (deliver hops ?r (Callback None)) evs'"
      by blast
    moreover have "proceeding (deliver hops ?r (Callback None))"
      by (rule proceeding_first [OF r(3,4)])
    moreover have "racing (deliver hops ?r (Callback None))"
      using r(5) by (simp only: deliver_racing)
    ultimately show ?thesis using Nil t by auto
  next
    case (Cons x xs)
    with assms have x: "x = Callback None" by (simp add: signals_def)
    have "proceeding (deliver hops initial (Callback None))"
      by (rule proceeding_first [OF consistent_initial]) (simp add: initial_def)
    then have "proceeding (foldl (deliver hops) initial (synchronous handlerFn))"
      using kept_foldl [of proceeding "\<lambda>x. True" hops "deliver hops initial (Callback None)" xs]
      by (simp add: Cons x proceeding_deliver)
    then have "proceeding (Promise_race ?s2)"
      by (intro proceeding_Promise_race proceeding_throw)
    then show ?thesis using Promise_race_frame(4) by blast
  qed
  then obtain s evs where s: "proceeding s" "racing s" "?s4 = drain (run_events hops s evs)"
    by blast
  from proceeding_end [OF s(1,2), of hops evs] s(3)
  have e: "resumed ?s4" "toProceed ?s4" "\<forall>e. race ?s4 \<noteq> Rejected e" by simp_all
  from toInterceptor_resumed [OF e(1)] e(2,3) show ?thesis
    by (cases "race ?s4") (simp_all add: toInterceptor_def split: prod.splits)
qed

theorem toInterceptor_proceed_witness:
  "signals \<lparr>synchronous = [Callback None], thrown = None, afterwards = [Signal Close]\<rparr>
     = Callback None # [Close :: nat signal]
   \<and> thrown \<lparr>synchronous = [Callback None], thrown = None :: nat option,
               afterwards = [Signal Close]\<rparr> = None
   \<and> toInterceptor (Suc 0)
         \<lparr>synchronous = [Callback None], thrown = None :: nat option, afterwards = [Signal Close]\<rparr>
         (0::nat) (\<lambda>d. (Returns 7, Suc d)) (0::nat)
       = \<lparr>next_calls = 1, result = Returns 7, downstream = 1\<rparr>"
  using toInterceptor_proceed [of
      "\<lparr>synchronous = [Callback None], thrown = None :: nat option, afterwards = [Signal Close]\<rparr>"
      "[Close]" "Suc 0" "0::nat" "\<lambda>d. (Returns 7, Suc d)" "0::nat"]
  by (simp add: signals_def signals_of_def)

lemma handling_first_enqueue:
  "handling_first s \<Longrightarrow> (j = RaceFinishing \<longrightarrow> racing s) \<Longrightarrow> handling_first (enqueue j s)"
  by (auto simp: handling_first_def enqueue_def takeWhile_append dest: set_takeWhileD)

lemma handling_first_fields:
  "handling_first s \<Longrightarrow> handling_first (s\<lparr>toProceed := a\<rparr>)"
  "handling_first s \<Longrightarrow> handling_first (s\<lparr>closed := b\<rparr>)"
  "handling_first s \<Longrightarrow> handling_first (s\<lparr>finishing := c\<rparr>)"
  by (simp_all add: handling_first_def)

lemma handling_first_deliver: "handling_first s \<Longrightarrow> handling_first (deliver hops s x)"
proof (cases x)
  case (Callback err)
  assume "handling_first s"
  then show ?thesis
    by (cases err) (simp_all add: Callback settle_handling_def handling_first_def)
next
  case Close
  assume h: "handling_first s"
  show ?thesis
  proof (cases hops)
    case 0
    with h handling_first_enqueue [of "s\<lparr>closed := True, finishing := Resolved\<rparr>" RaceFinishing]
    show ?thesis
      by (simp add: Close settle_finishing_def notify_def handling_first_fields)
  next
    case (Suc n)
    with h handling_first_enqueue [of "s\<lparr>closed := True\<rparr>" "Hop n"]
    show ?thesis
      by (simp add: Close handling_first_fields)
  qed
qed

lemma handling_first_dequeue:
  assumes "consistent s" and "handling_first s" and "jobs s = j # js"
  shows "handling_first (run_job j (s\<lparr>jobs := js\<rparr>))"
proof (cases "race s = Pending")
  case False
  with assms(2) have "race s = handling s" "handling s \<noteq> Pending"
    by (auto simp: handling_first_def)
  then show ?thesis
    by (cases j; cases "case j of Hop n \<Rightarrow> n | _ \<Rightarrow> 0")
       (auto simp: handling_first_def settle_race_def settle_finishing_def notify_def enqueue_def)
next
  case True
  with assms(2) have h: "handling s \<noteq> Pending"
    "RaceFinishing \<notin> set (takeWhile (\<lambda>j. j \<noteq> RaceHandling) (jobs s))"
    "racing s \<longrightarrow> RaceHandling \<in> set (jobs s)" "\<not> racing s \<longrightarrow> RaceFinishing \<notin> set (jobs s)"
    by (auto simp: handling_first_def)
  show ?thesis
  proof (cases j)
    case (Hop n)
    with h assms(3) True have "handling_first (s\<lparr>jobs := js\<rparr>)"
      by (auto simp: handling_first_def)
    then show ?thesis
      using handling_first_enqueue [of "s\<lparr>jobs := js\<rparr>" "Hop (n - 1)"]
        handling_first_enqueue [of "s\<lparr>jobs := js, finishing := Resolved\<rparr>" RaceFinishing]
      by (cases n) (auto simp: Hop settle_finishing_def notify_def handling_first_fields)
  next
    case RaceHandling
    with h True show ?thesis
      by (simp add: handling_first_def settle_race_def enqueue_def)
  next
    case RaceFinishing
    with h assms(3) show ?thesis by simp
  next
    case Resume
    with assms(1,3) True show ?thesis by (simp add: consistent_def)
  qed
qed

lemma handling_first_tick: "consistent s \<Longrightarrow> handling_first s \<Longrightarrow> handling_first (tick s)"
  by (cases "jobs s") (simp_all add: tick_def handling_first_dequeue)

lemma handling_first_Promise_race:
  "handling_first s \<Longrightarrow> \<not> racing s \<Longrightarrow> handling_first (Promise_race s)"
  by (auto simp: handling_first_def Promise_race_def enqueue_def Let_def takeWhile_append
      dest: set_takeWhileD)

lemma rejecting_deliver: "rejecting e s \<Longrightarrow> rejecting e (deliver hops s x)"
  by (simp add: rejecting_def consistent_deliver handling_first_deliver deliver_settled)

lemma rejecting_tick: "rejecting e s \<Longrightarrow> rejecting e (tick s)"
  by (simp add: rejecting_def consistent_tick handling_first_tick tick_frame)

lemma rejecting_first:
  assumes "consistent s" and "handling s = Pending" and "RaceFinishing \<notin> set (jobs s)"
    and "race s = Pending"
  shows "rejecting e (deliver hops s (Callback (Some e)))"
  using consistent_deliver [OF assms(1), of hops "Callback (Some e)"] assms(2-4)
  by (auto simp: rejecting_def handling_first_def settle_handling_def notify_def enqueue_def
      takeWhile_append dest: set_takeWhileD)

lemma rejecting_throw:
  "rejecting e s \<Longrightarrow> rejecting e (case t of None \<Rightarrow> s | Some err \<Rightarrow> settle_handling (Rejected err) s)"
  by (cases t) (simp_all add: rejecting_def settle_handling_def)

lemma rejecting_Promise_race: "rejecting e s \<Longrightarrow> \<not> racing s \<Longrightarrow> rejecting e (Promise_race s)"
  by (simp add: rejecting_def consistent_Promise_race handling_first_Promise_race Promise_race_frame)

lemma foldl_deliver_racing: "racing (foldl (deliver hops) s xs) = racing s"
  by (induction xs arbitrary: s) (simp_all add: deliver_racing)

lemma rejecting_end:
  assumes "rejecting e s" and "racing s"
  shows "resumed (drain (run_events hops s evs)) \<and> race (drain (run_events hops s evs)) = Rejected e"
proof -
  from assms have "live s" by (simp add: live_def rejecting_def handling_first_def)
  with ending [of "rejecting e" "\<lambda>x. True" hops s evs] assms(1)
  have "rejecting e (drain (run_events hops s evs))" "resumed (drain (run_events hops s evs))"
    by (auto simp: rejecting_deliver rejecting_tick)
  then show ?thesis by (auto simp: rejecting_def consistent_def handling_first_def)
qed

text \<open>
  C3. When the first signal of the wrapped handler is its callback with an error, the
  promise of the interceptor is rejected with that error, and \<open>next()\<close> is never called.
\<close>

theorem toInterceptor_error:
  assumes "signals handlerFn = Callback (Some err) # rest"
    and "synchronous handlerFn = [] \<longrightarrow> thrown handlerFn = None"
  shows "toInterceptor hops handlerFn response next d =
           \<lparr>next_calls = 0, result = Rejects err, downstream = d\<rparr>"
proof -
  let ?s1 = "foldl (deliver hops) (initial :: 'a pending_handler) (synchronous handlerFn)"
  let ?s2 = "case thrown handlerFn of
               None \<Rightarrow> ?s1 | Some err \<Rightarrow> settle_handling (Rejected err) ?s1"
  let ?s4 = "drain (run_events hops (Promise_race ?s2) (afterwards handlerFn))"
  have "\<exists>s evs. rejecting err s \<and> racing s \<and> ?s4 = drain (run_events hops s evs)"
  proof (cases "synchronous handlerFn")
    case Nil
    with assms have t: "thrown handlerFn = None"
      and l: "signals_of (afterwards handlerFn) = Callback (Some err) # rest"
      by (simp_all add: signals_def)
    let ?r = "Promise_race (initial :: 'a pending_handler)"
    have r: "jobs ?r = []" "\<not> resumed ?r" "consistent ?r" "handling ?r = Pending" "racing ?r"
      "race ?r = Pending"
      using consistent_Promise_race [OF consistent_initial]
      by (simp_all add: Promise_race_def initial_def Let_def)
    from skip_ticks [OF r(1,2) l, of hops] obtain evs' where
      "run_events hops ?r (afterwards handlerFn)
         = run_events hops (deliver hops ?r (Callback (Some err))) evs'"
      by blast
    moreover have "rejecting err (deliver hops ?r (Callback (Some err)))"
      by (rule rejecting_first [OF r(3,4) _ r(6)]) (simp add: r(1))
    moreover have "racing (deliver hops ?r (Callback (Some err)))"
      using r(5) by (simp only: deliver_racing)
    ultimately show ?thesis using Nil t by auto
  next
    case (Cons x xs)
    with assms have x: "x = Callback (Some err)" by (simp add: signals_def)
    have "rejecting err (deliver hops initial (Callback (Some err)))"
      by (rule rejecting_first [OF consistent_initial]) (simp_all add: initial_def)
    then have "rejecting err ?s1"
      using kept_foldl [of "rejecting err" "\<lambda>x. True" hops
          "deliver hops initial (Callback (Some err))" xs]
      by (simp add: Cons x rejecting_deliver)
    then have "rejecting err ?s2" by (rule rejecting_throw)
    moreover have "\<not> racing ?s2"
      by (cases "thrown handlerFn")
         (simp_all add: foldl_deliver_racing settle_handling_frame initial_def)
    ultimately have "rejecting err (Promise_race ?s2)" by (rule rejecting_Promise_race)
    then show ?thesis using Promise_race_frame(4) by blast
  qed
  then obtain s evs where s: "rejecting err s" "racing s" "?s4 = drain (run_events hops s evs)"
    by blast
  from rejecting_end [OF s(1,2), of hops evs] s(3)
  have e: "resumed ?s4" "race ?s4 = Rejected err" by simp_all
  from toInterceptor_resumed [OF e(1)] e(2) show ?thesis
    by (simp add: toInterceptor_def)
qed

theorem toInterceptor_error_witness:
  "signals \<lparr>synchronous = [Callback (Some (3::nat)), Callback None], thrown = None,
            afterwards = [Signal Close]\<rparr>
     = Callback (Some 3) # [Callback None, Close]
   \<and> thrown \<lparr>synchronous = [Callback (Some (3::nat)), Callback None], thrown = None,
               afterwards = [Signal Close]\<rparr> = None
   \<and> toInterceptor (Suc 0)
         \<lparr>synchronous = [Callback (Some (3::nat)), Callback None], thrown = None,
          afterwards = [Signal Close]\<rparr>
         (5::nat) (\<lambda>d. (Returns 7, Suc d)) (0::nat)
       = \<lparr>next_calls = 0, result = Rejects 3, downstream = 0\<rparr>"
  using toInterceptor_error [of
      "\<lparr>synchronous = [Callback (Some (3::nat)), Callback None], thrown = None,
        afterwards = [Signal Close]\<rparr>"
      3 "[Callback None, Close]" "Suc 0" "5::nat" "\<lambda>d. (Returns 7, Suc d)" "0::nat"]
  by (simp add: signals_def signals_of_def)

lemma quiet_deliver: "quiet p s \<Longrightarrow> x = Close \<Longrightarrow> quiet p (deliver hops s x)"
  by (simp only: quiet_def consistent_deliver deliver_Close_frame) simp

lemma quiet_tick: "quiet p s \<Longrightarrow> quiet p (tick s)"
  by (simp add: quiet_def consistent_tick tick_frame)

lemma closing:
  "consistent s \<Longrightarrow> racing s \<Longrightarrow> Close \<in> set (signals_of evs)
   \<Longrightarrow> resumed (run_events hops s evs) \<or> live (run_events hops s evs)"
proof (induction evs arbitrary: s)
  case Nil
  then show ?case by (simp add: signals_of_def)
next
  case (Cons ev evs)
  show ?case
  proof (cases "resumed s")
    case True
    then show ?thesis by simp
  next
    case False
    show ?thesis
    proof (cases "ev = Signal Close")
      case True
      have "live (deliver hops s Close)"
        using Cons.prems(1,2)
        by (simp only: live_def consistent_deliver deliver_racing deliver_Close_frame) simp
      then have "live (run_events hops (deliver hops s Close) evs)" by (rule live_run_events)
      with False True show ?thesis by simp
    next
      case no: False
      with Cons.prems(3) have c: "Close \<in> set (signals_of evs)"
        by (cases ev) (auto simp: signals_of_def)
      have "consistent (step hops s ev)" "racing (step hops s ev)"
        using Cons.prems(1,2)
        by (cases ev; simp add: consistent_deliver consistent_tick deliver_racing tick_frame)+
      from Cons.IH [OF this c] False show ?thesis by simp
    qed
  qed
qed

lemma deliver_closed: "closed s \<Longrightarrow> closed (deliver hops s x)"
  by (cases "(hops, s, x)" rule: deliver.cases)
     (simp_all add: settle_handling_def notify_def enqueue_def)

lemma closed_foldl: "Close \<in> set xs \<Longrightarrow> closed (foldl (deliver hops) s xs)"
proof (induction xs arbitrary: s)
  case Nil
  then show ?case by simp
next
  case (Cons x xs)
  show ?case
  proof (cases "x = Close")
    case True
    have "closed (deliver hops s Close)" by (rule deliver_Close_frame)
    then have "closed (foldl (deliver hops) (deliver hops s Close) xs)"
      by (rule kept_foldl [of closed "\<lambda>x. True", rotated]) (simp_all add: deliver_closed)
    with True show ?thesis by simp
  next
    case False
    with Cons show ?thesis by simp
  qed
qed

text \<open>
  C2. When the close event fires and the wrapped handler never calls its callback, the
  interceptor never calls \<open>next()\<close>, so nothing downstream runs, and it does not hang;
  unless the handler threw, it returns (the response).
\<close>

theorem toInterceptor_closed:
  assumes "\<forall>err. Callback err \<notin> set (signals handlerFn)" and "Close \<in> set (signals handlerFn)"
  shows "next_calls (toInterceptor hops handlerFn response next d) = 0
       \<and> downstream (toInterceptor hops handlerFn response next d) = d
       \<and> result (toInterceptor hops handlerFn response next d) \<noteq> Hangs
       \<and> (thrown handlerFn = None
            \<longrightarrow> result (toInterceptor hops handlerFn response next d) = Returns response)"
proof -
  let ?s1 = "foldl (deliver hops) (initial :: 'a pending_handler) (synchronous handlerFn)"
  let ?s2 = "case thrown handlerFn of
               None \<Rightarrow> ?s1 | Some err \<Rightarrow> settle_handling (Rejected err) ?s1"
  let ?s3 = "Promise_race ?s2"
  let ?s4 = "drain (run_events hops ?s3 (afterwards handlerFn))"
  let ?p = "case thrown handlerFn of None \<Rightarrow> Pending | Some err \<Rightarrow> Rejected err"
  have only: "x = Close" if "x \<in> set (signals handlerFn)" for x
  proof (cases x)
    case (Callback e)
    with that assms(1) show ?thesis by blast
  qed simp
  have q0: "quiet Pending (initial :: 'a pending_handler)"
    by (simp add: quiet_def consistent_initial) (simp add: initial_def)
  have q1: "quiet Pending ?s1"
  proof (rule kept_foldl [where A = "\<lambda>x. x = Close"])
    show "quiet Pending (deliver hops s x)" if "quiet Pending s" "x = Close"
      for s :: "'a pending_handler" and x
      using that by (rule quiet_deliver)
    show "quiet Pending (initial :: 'a pending_handler)" by fact
    show "\<forall>x \<in> set (synchronous handlerFn). x = Close" using only by (simp add: signals_def)
  qed
  then have q2: "quiet ?p ?s2"
    by (cases "thrown handlerFn")
       (simp_all add: quiet_def consistent_settle_handling settle_handling_frame)
  then have q3: "quiet ?p ?s3"
    by (simp add: quiet_def consistent_Promise_race Promise_race_frame)
  have "quiet ?p (run_events hops ?s3 (afterwards handlerFn))"
  proof (rule kept_run_events [where A = "\<lambda>x. x = Close"])
    show "quiet ?p (deliver hops s x)" if "quiet ?p s" "x = Close"
      for s :: "'a pending_handler" and x
      using that by (rule quiet_deliver)
    show "quiet ?p (tick s)" if "quiet ?p s" for s :: "'a pending_handler"
      using that by (rule quiet_tick)
    show "quiet ?p ?s3" by fact
    show "\<forall>x \<in> set (signals_of (afterwards handlerFn)). x = Close"
      using only by (simp add: signals_def)
  qed
  then have q4: "quiet ?p ?s4"
    by (rule kept_drain [of "quiet ?p", rotated]) (rule quiet_tick)
  have "resumed ?s4"
  proof (cases "Close \<in> set (synchronous handlerFn)")
    case True
    then have "closed ?s1" by (rule closed_foldl)
    then have "closed ?s3"
      by (cases "thrown handlerFn") (simp_all add: Promise_race_frame settle_handling_frame)
    with q3 have "live ?s3" by (simp add: live_def quiet_def Promise_race_frame)
    then have "live (run_events hops ?s3 (afterwards handlerFn))" by (rule live_run_events)
    then show ?thesis by (rule live_drain_resumed)
  next
    case False
    with assms(2) have "Close \<in> set (signals_of (afterwards handlerFn))"
      by (simp add: signals_def)
    from closing [OF _ _ this, of ?s3 hops] q3
    have "resumed (run_events hops ?s3 (afterwards handlerFn))
        \<or> live (run_events hops ?s3 (afterwards handlerFn))"
      by (simp add: quiet_def Promise_race_frame)
    then show ?thesis
      using live_drain_resumed by auto
  qed
  with toInterceptor_resumed [of hops handlerFn]
  have a: "await_race hops handlerFn = Some ?s4" by simp
  from q4 have "\<not> toProceed ?s4" "consistent ?s4" "handling ?s4 = ?p"
    by (simp_all add: quiet_def)
  then show ?thesis
    using a
    by (cases "race ?s4"; cases "thrown handlerFn")
       (auto simp: toInterceptor_def consistent_def)
qed

theorem toInterceptor_closed_witness:
  "(\<forall>err. Callback err \<notin> set (signals
       \<lparr>synchronous = [], thrown = None :: nat option, afterwards = [Tick, Signal Close]\<rparr>))
   \<and> Close \<in> set (signals
       \<lparr>synchronous = [], thrown = None :: nat option, afterwards = [Tick, Signal Close]\<rparr>)
   \<and> thrown \<lparr>synchronous = [], thrown = None :: nat option,
               afterwards = [Tick, Signal Close]\<rparr> = None
   \<and> toInterceptor (Suc 0)
         \<lparr>synchronous = [], thrown = None :: nat option, afterwards = [Tick, Signal Close]\<rparr>
         (5::nat) (\<lambda>d. (Returns 7, Suc d)) (0::nat)
       = \<lparr>next_calls = 0, result = Returns 5, downstream = 0\<rparr>"
  using toInterceptor_closed [of
      "\<lparr>synchronous = [], thrown = None :: nat option, afterwards = [Tick, Signal Close]\<rparr>"
      "Suc 0" "5::nat" "\<lambda>d. (Returns 7, Suc d)" "0::nat"]
  by (simp add: evaluation)

text \<open>
  In the synchronous call the race is not built yet, and \<open>handling\<close> is its first promise:
  an error of the callback, and an exception of the handler, win over a close event of the
  same call, whichever came first.
\<close>

lemma unraced_deliver: "unraced s \<Longrightarrow> unraced (deliver hops s Close)"
  using consistent_deliver [of s hops Close]
  by (cases hops) (auto simp: unraced_def settle_finishing_def notify_def enqueue_def)

lemma unraced_foldl: "unraced s \<Longrightarrow> set xs \<subseteq> {Close} \<Longrightarrow> unraced (foldl (deliver hops) s xs)"
proof (induction xs arbitrary: s)
  case Nil
  then show ?case by simp
next
  case (Cons x xs)
  then have x: "x = Close" by simp
  from Cons.prems(1) have "unraced (deliver hops s Close)" by (rule unraced_deliver)
  from Cons.IH [OF this] Cons.prems(2) show ?case by (simp only: x foldl_Cons) simp
qed

lemma unraced_initial: "unraced initial"
  using consistent_initial by (simp add: unraced_def) (simp add: initial_def)

lemma rejecting_result:
  assumes "rejecting err (foldl (deliver hops) initial (synchronous handlerFn))
         \<or> rejecting err (case thrown handlerFn of
               None \<Rightarrow> foldl (deliver hops) initial (synchronous handlerFn)
             | Some e \<Rightarrow> settle_handling (Rejected e)
                          (foldl (deliver hops) initial (synchronous handlerFn)))"
  shows "toInterceptor hops handlerFn response next d =
           \<lparr>next_calls = 0, result = Rejects err, downstream = d\<rparr>"
proof -
  let ?s1 = "foldl (deliver hops) (initial :: 'a pending_handler) (synchronous handlerFn)"
  let ?s2 = "case thrown handlerFn of
               None \<Rightarrow> ?s1 | Some e \<Rightarrow> settle_handling (Rejected e) ?s1"
  let ?s4 = "drain (run_events hops (Promise_race ?s2) (afterwards handlerFn))"
  from assms have "rejecting err ?s2" by (auto intro: rejecting_throw)
  moreover have "\<not> racing ?s2"
    by (cases "thrown handlerFn")
       (simp_all add: foldl_deliver_racing settle_handling_frame initial_def)
  ultimately have "rejecting err (Promise_race ?s2)" by (rule rejecting_Promise_race)
  from rejecting_end [OF this Promise_race_frame(4), of hops "afterwards handlerFn"]
  have e: "resumed ?s4" "race ?s4 = Rejected err" by simp_all
  from toInterceptor_resumed [OF e(1)] e(2) show ?thesis
    by (simp add: toInterceptor_def)
qed

lemma toInterceptor_synchronous_error:
  assumes "synchronous handlerFn = closes @ Callback (Some err) # rest" and "set closes \<subseteq> {Close}"
  shows "toInterceptor hops handlerFn response next d =
           \<lparr>next_calls = 0, result = Rejects err, downstream = d\<rparr>"
proof -
  let ?s = "foldl (deliver hops) (initial :: 'a pending_handler) closes"
  have "unraced ?s" using unraced_initial assms(2) by (rule unraced_foldl)
  then have "rejecting err (deliver hops ?s (Callback (Some err)))"
    by (intro rejecting_first) (simp_all add: unraced_def)
  then have "rejecting err (foldl (deliver hops) (deliver hops ?s (Callback (Some err))) rest)"
    by (rule kept_foldl [of "rejecting err" "\<lambda>x. True", rotated])
       (simp_all add: rejecting_deliver)
  then have "rejecting err (foldl (deliver hops) initial (synchronous handlerFn))"
    by (simp add: assms(1))
  then show ?thesis by (intro rejecting_result) simp
qed

lemma toInterceptor_throws:
  assumes "set (synchronous handlerFn) \<subseteq> {Close}" and "thrown handlerFn = Some err"
  shows "toInterceptor hops handlerFn response next d =
           \<lparr>next_calls = 0, result = Rejects err, downstream = d\<rparr>"
proof -
  let ?s = "foldl (deliver hops) (initial :: 'a pending_handler) (synchronous handlerFn)"
  have "unraced ?s" using unraced_initial assms(1) by (rule unraced_foldl)
  then have "rejecting err (deliver hops ?s (Callback (Some err)))"
    by (intro rejecting_first) (simp_all add: unraced_def)
  then show ?thesis
    by (intro rejecting_result) (simp add: assms(2))
qed

lemma proceeding_result:
  assumes "proceeding (foldl (deliver hops) initial (synchronous handlerFn))"
  shows "toInterceptor hops handlerFn response next d =
           \<lparr>next_calls = 1, result = fst (next d), downstream = snd (next d)\<rparr>"
proof -
  let ?s1 = "foldl (deliver hops) (initial :: 'a pending_handler) (synchronous handlerFn)"
  let ?s2 = "case thrown handlerFn of
               None \<Rightarrow> ?s1 | Some e \<Rightarrow> settle_handling (Rejected e) ?s1"
  let ?s4 = "drain (run_events hops (Promise_race ?s2) (afterwards handlerFn))"
  from assms have "proceeding (Promise_race ?s2)"
    by (intro proceeding_Promise_race proceeding_throw)
  from proceeding_end [OF this Promise_race_frame(4), of hops "afterwards handlerFn"]
  have e: "resumed ?s4" "toProceed ?s4" "\<forall>e. race ?s4 \<noteq> Rejected e" by simp_all
  from toInterceptor_resumed [OF e(1)] e(2,3) show ?thesis
    by (cases "race ?s4") (simp_all add: toInterceptor_def split: prod.splits)
qed

text \<open>
  C4. The flag \<open>toProceed\<close> is read after the \<open>await\<close>, and the callback sets it
  whether or not the race is already settled. When the close event fires first and the
  callback follows with no error before the function continues, the interceptor calls
  \<open>next()\<close> all the same: in the synchronous call of the handler, however many jobs
  \<open>pEvent\<close> takes; and also when the callback comes after \<open>finishing\<close> has settled and
  has won the race, between the job that settles the race and the job that continues
  the function.
\<close>

theorem toInterceptor_close_then_callback:
  "toInterceptor hops \<lparr>synchronous = [Close, Callback None], thrown = None, afterwards = []\<rparr>
       response next d
     = \<lparr>next_calls = 1, result = fst (next d), downstream = snd (next d)\<rparr>
   \<and> toInterceptor (Suc 0)
       \<lparr>synchronous = [Close], thrown = None, afterwards = [Tick, Tick, Signal (Callback None)]\<rparr>
       response next d
     = \<lparr>next_calls = 1, result = fst (next d), downstream = snd (next d)\<rparr>"
proof
  have "handling (deliver hops (initial :: 'a pending_handler) Close) = Pending"
    by (simp only: deliver_Close_frame) (simp add: initial_def)
  with consistent_deliver [OF consistent_initial, of hops Close]
  have "proceeding (deliver hops (deliver hops (initial :: 'a pending_handler) Close) (Callback None))"
    by (rule proceeding_first)
  then show "toInterceptor hops
       \<lparr>synchronous = [Close, Callback None], thrown = None, afterwards = []\<rparr> response next d
     = \<lparr>next_calls = 1, result = fst (next d), downstream = snd (next d)\<rparr>"
    by (intro proceeding_result) simp
next
  show "toInterceptor (Suc 0)
       \<lparr>synchronous = [Close], thrown = None, afterwards = [Tick, Tick, Signal (Callback None)]\<rparr>
       response next d
     = \<lparr>next_calls = 1, result = fst (next d), downstream = snd (next d)\<rparr>"
    by (simp add: evaluation split: prod.splits)
qed

text \<open>
  In the second case \<open>finishing\<close> has settled the race when the callback is called, while
  \<open>handling\<close> is pending and the function has not continued.
\<close>

lemma close_wins_the_race:
  "race (run_events (Suc 0) (Promise_race (deliver (Suc 0) initial Close)) [Tick, Tick]) = Resolved
   \<and> handling (run_events (Suc 0) (Promise_race (deliver (Suc 0) initial Close)) [Tick, Tick]) = Pending
   \<and> \<not> resumed (run_events (Suc 0) (Promise_race (deliver (Suc 0) initial Close)) [Tick, Tick])"
  by (simp add: evaluation)

text \<open>
  With the callback after the function has continued, the interceptor has read the flag
  before, and returns the response; and an error of the callback after the close event
  has settled the race is not propagated.
\<close>

lemma toInterceptor_close_before_callback:
  "toInterceptor (Suc 0)
     \<lparr>synchronous = [Close], thrown = None,
      afterwards = [Tick, Tick, Tick, Signal (Callback None)]\<rparr> response next d
   = \<lparr>next_calls = 0, result = Returns response, downstream = d\<rparr>"
  by (simp add: evaluation)

lemma toInterceptor_close_then_late_error:
  "toInterceptor (Suc 0)
     \<lparr>synchronous = [Close], thrown = None,
      afterwards = [Tick, Signal (Callback (Some err))]\<rparr> response next d
   = \<lparr>next_calls = 0, result = Returns response, downstream = d\<rparr>"
  by (simp add: evaluation)

text \<open>On no input is \<open>next()\<close> called more than once.\<close>

lemma toInterceptor_next_at_most_once:
  "next_calls (toInterceptor hops handlerFn response next d) \<le> 1"
  by (simp add: toInterceptor_def split: option.splits promise.splits prod.splits)

text \<open>
  C8. Whenever the interceptor returns a value without having called \<open>next()\<close> (the
  close path), the value is the \<open>response\<close> of the request context.
\<close>

theorem toInterceptor_returns_response:
  assumes "next_calls (toInterceptor hops handlerFn response next d) = 0"
    and "result (toInterceptor hops handlerFn response next d) = Returns v"
  shows "v = response"
  using assms
  by (auto simp: toInterceptor_def split: option.splits promise.splits prod.splits if_splits)

theorem toInterceptor_returns_response_witness:
  "next_calls (toInterceptor (Suc 0)
      \<lparr>synchronous = [Close], thrown = None :: nat option, afterwards = []\<rparr>
      (5::nat) (\<lambda>d. (Returns 7, Suc d)) (0::nat)) = 0
   \<and> result (toInterceptor (Suc 0)
      \<lparr>synchronous = [Close], thrown = None :: nat option, afterwards = []\<rparr>
      (5::nat) (\<lambda>d. (Returns 7, Suc d)) (0::nat)) = Returns 5
   \<and> (5::nat) = 5"
  using toInterceptor_returns_response [of "Suc 0"
      "\<lparr>synchronous = [Close], thrown = None :: nat option, afterwards = []\<rparr>"
      "5::nat" "\<lambda>d. (Returns 7, Suc d)" "0::nat" 5]
  by (simp add: evaluation)

section \<open>Properties of the chain\<close>

lemma run_callable_called_invoked:
  "invoked (snd (run_callable c next True w)) = invoked w"
  by (induction c arbitrary: w) simp_all

lemma run_callable_invoked:
  assumes "\<And>w. \<exists>n. invoked (snd (next w)) = invoked w @ take n ids"
  shows "\<exists>n. invoked (snd (run_callable c next False w)) = invoked w @ take n ids"
proof (induction c arbitrary: w)
  case (Done out)
  have "invoked w = invoked w @ take 0 ids" by simp
  then show ?case by (metis run_callable.simps(1) snd_conv)
next
  case (CallNext k)
  obtain out w' where nw: "next w = (out, w')" by (cases "next w")
  from assms [of w] nw obtain n where n: "invoked w' = invoked w @ take n ids" by auto
  have "invoked (snd (run_callable (CallNext k) next False w)) = invoked w'"
    using nw by (simp add: run_callable_called_invoked split: outcome.splits chain_error.splits)
  with n have "invoked (snd (run_callable (CallNext k) next False w)) = invoked w @ take n ids"
    by simp
  then show ?case ..
next
  case (Update f c)
  from Update [of "w\<lparr>requestCtx := f (requestCtx w)\<rparr>"] show ?case by simp
next
  case (Register point ident grp c' c)
  from Register(2) [of "w\<lparr>registry := (registry w)(point := registry w point
      @ [\<lparr>identity = ident, entry_group = grp, callable = c'\<rparr>])\<rparr>"]
  show ?case by simp
next
  case (Deregister point ident c)
  from Deregister [of "w\<lparr>registry := (registry w)(point :=
      filter (\<lambda>e. identity e \<noteq> ident) (registry w point))\<rparr>"]
  show ?case by simp
qed simp_all

lemma invokeInterceptors_invoked:
  "\<exists>n. invoked (snd (invokeInterceptors es w)) = invoked w @ take n (map identity es)"
proof (induction es arbitrary: w)
  case Nil
  then show ?case by simp
next
  case (Cons e es)
  from run_callable_invoked [of "invokeInterceptors es" "map identity es" "callable e"
      "w\<lparr>invoked := invoked w @ [identity e]\<rparr>", OF Cons.IH]
  obtain n where "invoked (snd (invokeInterceptors (e # es) w))
      = invoked w @ [identity e] @ take n (map identity es)"
    by auto
  then have "invoked (snd (invokeInterceptors (e # es) w))
      = invoked w @ take (Suc n) (map identity (e # es))"
    by simp
  then show ?case by blast
qed

lemma observe_simps:
  "observe (w\<lparr>requestCtx := x\<rparr>) = (x, snd (observe w))"
  "observe (w\<lparr>registry := r\<rparr>) = observe w"
  "observe (w\<lparr>invoked := i\<rparr>) = (fst (observe w), i)"
  "fst (observe w) = requestCtx w" "snd (observe w) = invoked w"
  by (simp_all add: observe_def)

lemma observed_pair: "observed (out, w) = (out, observe w)"
  by (simp add: observed_def)

lemma run_callable_observe:
  assumes "\<And>w. observed (next w) = next' (observe w)"
  shows "observed (run_callable c next called w) = run_entry c next' called (observe w)"
proof (induction c arbitrary: w called)
  case (Done out)
  then show ?case by (simp add: observed_pair)
next
  case (Update f c)
  from Update [of called "w\<lparr>requestCtx := f (requestCtx w)\<rparr>"] show ?case
    by (simp add: observe_simps)
next
  case (Read k)
  from Read [of "k (requestCtx w)" called w] show ?case by (simp add: observe_simps)
next
  case (Register point ident grp c' c)
  from Register(2) [of called "w\<lparr>registry := (registry w)(point := registry w point
      @ [\<lparr>identity = ident, entry_group = grp, callable = c'\<rparr>])\<rparr>"]
  show ?case by (simp add: observe_simps)
next
  case (Deregister point ident c)
  from Deregister [of called "w\<lparr>registry := (registry w)(point :=
      filter (\<lambda>e. identity e \<noteq> ident) (registry w point))\<rparr>"]
  show ?case by (simp add: observe_simps)
next
  case (CallNext k)
  obtain out w' where nw: "next w = (out, w')" by (cases "next w")
  with assms [of w] have nv: "next' (observe w) = (out, observe w')"
    by (simp add: observed_pair)
  from CallNext [of "k out" True w'] nw nv show ?case
    by (cases out) (auto simp: observed_pair split: chain_error.splits)
qed

lemma invokeInterceptors_observe:
  "observed (invokeInterceptors es w) = invoke es (observe w)"
proof (induction es arbitrary: w)
  case Nil
  then show ?case by (simp add: observed_pair)
next
  case (Cons e es)
  have "observed (run_callable (callable e) (invokeInterceptors es) False
          (w\<lparr>invoked := invoked w @ [identity e]\<rparr>))
      = run_entry (callable e) (invoke es) False (observe (w\<lparr>invoked := invoked w @ [identity e]\<rparr>))"
    by (rule run_callable_observe) (rule Cons.IH)
  then show ?case by (simp add: observe_simps)
qed

lemma run_callable_calls_next:
  assumes "\<And>w. invoked (snd (next w)) = invoked w @ ids" and "calls_next c"
  shows "invoked (snd (run_callable c next False w)) = invoked w @ ids"
  using assms(2)
proof (induction c arbitrary: w)
  case (CallNext k)
  obtain out w' where nw: "next w = (out, w')" by (cases "next w")
  with assms(1) [of w] have "invoked w' = invoked w @ ids" by simp
  with nw show ?case
    by (simp add: run_callable_called_invoked split: outcome.splits chain_error.splits)
next
  case (Update f c)
  from Update.IH [of "w\<lparr>requestCtx := f (requestCtx w)\<rparr>"] Update.prems show ?case by simp
next
  case (Register point ident grp c' c)
  from Register.IH(2) [of "w\<lparr>registry := (registry w)(point := registry w point
      @ [\<lparr>identity = ident, entry_group = grp, callable = c'\<rparr>])\<rparr>"] Register.prems
  show ?case by simp
next
  case (Deregister point ident c)
  from Deregister.IH [of "w\<lparr>registry := (registry w)(point :=
      filter (\<lambda>e. identity e \<noteq> ident) (registry w point))\<rparr>"] Deregister.prems
  show ?case by simp
qed simp_all

lemma invokeInterceptors_calls_next:
  "list_all (\<lambda>e. calls_next (callable e)) es
   \<Longrightarrow> invoked (snd (invokeInterceptors es w)) = invoked w @ map identity es"
proof (induction es arbitrary: w)
  case Nil
  then show ?case by simp
next
  case (Cons e es)
  from Cons.prems have c: "calls_next (callable e)"
    and r: "list_all (\<lambda>e. calls_next (callable e)) es" by simp_all
  have "invoked (snd (run_callable (callable e) (invokeInterceptors es) False
          (w\<lparr>invoked := invoked w @ [identity e]\<rparr>)))
      = invoked (w\<lparr>invoked := invoked w @ [identity e]\<rparr>) @ map identity es"
    using Cons.IH [OF r] c by (rule run_callable_calls_next)
  then show ?case by simp
qed

text \<open>
  Whatever the entries do, the identities invoked are a prefix of those of the chain found
  at the start.
\<close>

lemma invokeMiddleware_invoked_prefix:
  "\<exists>n. invoked (snd (invokeMiddleware w options)) =
         invoked w @ take n (map identity
           (MiddlewareChain w (fst (invokeMiddleware_options options))
              (snd (invokeMiddleware_options options))))"
proof -
  obtain point groups where "invokeMiddleware_options options = (point, groups)"
    by (cases "invokeMiddleware_options options")
  then show ?thesis
    using invokeInterceptors_invoked [of "MiddlewareChain w point groups" w]
    by (simp add: invokeMiddleware_def)
qed

text \<open>
  C7. A chain execution started by \<open>invokeMiddleware\<close> runs the snapshot, the ordered
  entries found at its start. Its result, what it leaves in the request context and
  the entries it invokes are those of running the snapshot with no registry at all, so
  that nothing the entries do to the registry while they run, adding entries, removing
  entries or replacing the callable of an entry, is observed by this execution; and
  when every entry of the snapshot calls \<open>next\<close>, the entries invoked are exactly those
  of the snapshot, all of them and no other, in its order.
\<close>

theorem invokeMiddleware_snapshot:
  "observed (invokeMiddleware w options)
     = invoke (MiddlewareChain w (fst (invokeMiddleware_options options))
                 (snd (invokeMiddleware_options options)))
         (observe w)
   \<and> (list_all (\<lambda>e. calls_next (callable e))
         (MiddlewareChain w (fst (invokeMiddleware_options options))
            (snd (invokeMiddleware_options options)))
      \<longrightarrow> invoked (snd (invokeMiddleware w options))
          = invoked w @ map identity
              (MiddlewareChain w (fst (invokeMiddleware_options options))
                 (snd (invokeMiddleware_options options))))"
proof -
  obtain point groups where "invokeMiddleware_options options = (point, groups)"
    by (cases "invokeMiddleware_options options")
  then show ?thesis
    using invokeInterceptors_observe [of "MiddlewareChain w point groups" w]
      invokeInterceptors_calls_next [of "MiddlewareChain w point groups" w]
    by (simp add: invokeMiddleware_def)
qed

text \<open>
  An entry \<open>A\<close> that registers an entry \<open>X\<close> in the first group, removes the entry \<open>B\<close>,
  registers another callable under the identity \<open>B\<close> and then calls \<open>next\<close>: the
  execution runs \<open>A\<close> and the \<open>B\<close> of the snapshot, which writes to the request context,
  and neither \<open>X\<close> nor the new callable of \<open>B\<close>, which are in the registry when it ends.
\<close>

theorem invokeMiddleware_snapshot_witness:
  "list_all (\<lambda>e. calls_next (callable e))
     (MiddlewareChain
        \<lparr>requestCtx = [], registry = (\<lambda>_. [])(''middleware.defaultChain'' :=
           [\<lparr>identity = ''A'', entry_group = '''',
             callable = Register ''middleware.defaultChain'' ''X'' ''cors'' pass_through
               (Deregister ''middleware.defaultChain'' ''B''
                 (Register ''middleware.defaultChain'' ''B'' ''''
                   (Update (\<lambda>c. c @ [''new B'']) pass_through) pass_through))\<rparr>,
            \<lparr>identity = ''B'', entry_group = '''',
             callable = Update (\<lambda>c. c @ [''old B'']) (pass_through
               :: (string list, nat, nat) callable_of)\<rparr>]),
          invoked = []\<rparr>
        (fst (invokeMiddleware_options
           (Some \<lparr>extensionPoint = None, orderedGroups = Some [''cors'', ''apiSpec'', '''']\<rparr>)))
        (snd (invokeMiddleware_options
           (Some \<lparr>extensionPoint = None, orderedGroups = Some [''cors'', ''apiSpec'', '''']\<rparr>))))
   \<and> observed (invokeMiddleware
        \<lparr>requestCtx = [], registry = (\<lambda>_. [])(''middleware.defaultChain'' :=
           [\<lparr>identity = ''A'', entry_group = '''',
             callable = Register ''middleware.defaultChain'' ''X'' ''cors'' pass_through
               (Deregister ''middleware.defaultChain'' ''B''
                 (Register ''middleware.defaultChain'' ''B'' ''''
                   (Update (\<lambda>c. c @ [''new B'']) pass_through) pass_through))\<rparr>,
            \<lparr>identity = ''B'', entry_group = '''',
             callable = Update (\<lambda>c. c @ [''old B'']) (pass_through
               :: (string list, nat, nat) callable_of)\<rparr>]),
          invoked = []\<rparr>
        (Some \<lparr>extensionPoint = None, orderedGroups = Some [''cors'', ''apiSpec'', '''']\<rparr>))
     = (Returns EndOfChain, [''old B''], [''A'', ''B''])
   \<and> map identity (registry (snd (invokeMiddleware
        \<lparr>requestCtx = [], registry = (\<lambda>_. [])(''middleware.defaultChain'' :=
           [\<lparr>identity = ''A'', entry_group = '''',
             callable = Register ''middleware.defaultChain'' ''X'' ''cors'' pass_through
               (Deregister ''middleware.defaultChain'' ''B''
                 (Register ''middleware.defaultChain'' ''B'' ''''
                   (Update (\<lambda>c. c @ [''new B'']) pass_through) pass_through))\<rparr>,
            \<lparr>identity = ''B'', entry_group = '''',
             callable = Update (\<lambda>c. c @ [''old B'']) (pass_through
               :: (string list, nat, nat) callable_of)\<rparr>]),
          invoked = []\<rparr>
        (Some \<lparr>extensionPoint = None, orderedGroups = Some [''cors'', ''apiSpec'', '''']\<rparr>)))
        ''middleware.defaultChain'')
     = [''A'', ''X'', ''B'']"
  using invokeMiddleware_snapshot [of
        "\<lparr>requestCtx = [], registry = (\<lambda>_. [])(''middleware.defaultChain'' :=
           [\<lparr>identity = ''A'', entry_group = '''',
             callable = Register ''middleware.defaultChain'' ''X'' ''cors'' pass_through
               (Deregister ''middleware.defaultChain'' ''B''
                 (Register ''middleware.defaultChain'' ''B'' ''''
                   (Update (\<lambda>c. c @ [''new B'']) pass_through) pass_through))\<rparr>,
            \<lparr>identity = ''B'', entry_group = '''',
             callable = Update (\<lambda>c. c @ [''old B'']) (pass_through
               :: (string list, nat, nat) callable_of)\<rparr>]),
          invoked = []\<rparr>"
        "Some \<lparr>extensionPoint = None, orderedGroups = Some [''cors'', ''apiSpec'', '''']\<rparr>"]
  by (simp add: observed_def observe_def invokeMiddleware_def invokeMiddleware_options_def
      MiddlewareChain_def findEntriesForExtensionPoint_def resolve_order_def group_rank_def
      position_def MIDDLEWARE_EXTENSION_POINT_def pass_through_def)

text \<open>
  C6. The entries \<open>A\<close> of group \<open>cors\<close>, \<open>B\<close> of the empty group and \<open>C\<close> of group
  \<open>apiSpec\<close>, registered in the order \<open>B\<close>, \<open>C\<close>, \<open>A\<close>, are resolved to the order \<open>A\<close>,
  \<open>C\<close>, \<open>B\<close> under the preference \<open>cors\<close>, \<open>apiSpec\<close>, empty group, and the pipeline
  invokes them in that order.
\<close>

theorem invokeMiddleware_resolved_order:
  "resolve_order
     [\<lparr>identity = ''B'', entry_group = '''', callable = b\<rparr>,
      \<lparr>identity = ''C'', entry_group = ''apiSpec'', callable = c\<rparr>,
      \<lparr>identity = ''A'', entry_group = ''cors'', callable = a\<rparr>]
     [''cors'', ''apiSpec'', '''']
   = [\<lparr>identity = ''A'', entry_group = ''cors'', callable = a\<rparr>,
      \<lparr>identity = ''C'', entry_group = ''apiSpec'', callable = c\<rparr>,
      \<lparr>identity = ''B'', entry_group = '''', callable = b\<rparr>]
   \<and> invoked (snd (invokeMiddleware
         \<lparr>requestCtx = x, registry = (\<lambda>_. [])(MIDDLEWARE_EXTENSION_POINT :=
             [\<lparr>identity = ''B'', entry_group = '''', callable = pass_through\<rparr>,
              \<lparr>identity = ''C'', entry_group = ''apiSpec'', callable = pass_through\<rparr>,
              \<lparr>identity = ''A'', entry_group = ''cors'', callable = pass_through\<rparr>]),
           invoked = []\<rparr>
         (Some \<lparr>extensionPoint = None, orderedGroups = Some [''cors'', ''apiSpec'', '''']\<rparr>)))
     = [''A'', ''C'', ''B'']"
  by (simp add: invokeMiddleware_def invokeMiddleware_options_def MiddlewareChain_def
      findEntriesForExtensionPoint_def resolve_order_def group_rank_def position_def
      pass_through_def)

section \<open>Properties of the invoker's options\<close>

text \<open>What \<open>value()\<close> falls back to, whatever \<open>defaultOptions\<close> holds.\<close>

lemma InvokeMiddlewareProvider_value_fallbacks:
  "orderedGroups (InvokeMiddlewareProvider_value this options) =
     nullish (Option.bind options orderedGroups) (orderedGroups (defaultOptions this))"
  "extensionPoint (InvokeMiddlewareProvider_value this options) =
     nullish (nullish (Option.bind options extensionPoint)
                (Option.bind (binding this) (\<lambda>b. tagMap b EXTENSION_POINT)))
       (extensionPoint (defaultOptions this))"
  by (simp_all add: InvokeMiddlewareProvider_value_def Let_def)

text \<open>
  C5. With the default options of the source, the function returned by
  \<open>InvokeMiddlewareProvider.value()\<close> has the chain invoked with the groups \<open>cors\<close>,
  \<open>apiSpec\<close>, empty group when \<open>options.orderedGroups\<close> is omitted; and when
  \<open>options.extensionPoint\<close> is omitted, with the extension point that the tag
  \<open>extensionPoint\<close> of the binding names, or else with \<open>middleware.defaultChain\<close>.
\<close>

theorem InvokeMiddlewareProvider_value_defaults:
  assumes "defaultOptions this = defaultOptions_initializer"
  shows "(Option.bind options orderedGroups = None \<longrightarrow>
            snd (invokeMiddleware_options (Some (InvokeMiddlewareProvider_value this options)))
              = Some [''cors'', ''apiSpec'', ''''])
       \<and> (Option.bind options extensionPoint = None \<longrightarrow>
            fst (invokeMiddleware_options (Some (InvokeMiddlewareProvider_value this options)))
              = (case Option.bind (binding this) (\<lambda>b. tagMap b ''extensionPoint'') of
                   Some tag \<Rightarrow> tag
                 | None \<Rightarrow> ''middleware.defaultChain''))"
  using assms
  by (auto simp: InvokeMiddlewareProvider_value_def invokeMiddleware_options_def Let_def
      nullish_def defaultOptions_initializer_def MIDDLEWARE_EXTENSION_POINT_def
      EXTENSION_POINT_def split: option.splits)

theorem InvokeMiddlewareProvider_value_defaults_witness:
  "defaultOptions \<lparr>binding = Some \<lparr>key = ''k'', tagMap = [''extensionPoint'' \<mapsto> ''auth''], bound = ()\<rparr>,
                   defaultOptions = defaultOptions_initializer\<rparr> = defaultOptions_initializer
   \<and> Option.bind (None :: InvokeMiddlewareOptions option) orderedGroups = None
   \<and> Option.bind (None :: InvokeMiddlewareOptions option) extensionPoint = None
   \<and> invokeMiddleware_options (Some (InvokeMiddlewareProvider_value
        \<lparr>binding = Some \<lparr>key = ''k'', tagMap = [''extensionPoint'' \<mapsto> ''auth''], bound = ()\<rparr>,
         defaultOptions = defaultOptions_initializer\<rparr> None))
       = (''auth'', Some [''cors'', ''apiSpec'', ''''])"
  using InvokeMiddlewareProvider_value_defaults
    [of "\<lparr>binding = Some \<lparr>key = ''k'', tagMap = [''extensionPoint'' \<mapsto> ''auth''], bound = ()\<rparr>,
         defaultOptions = defaultOptions_initializer\<rparr>" None]
  by (simp add: prod_eq_iff)

section \<open>Properties of the registration\<close>

lemma asMiddleware_group:
  "tagMap (asMiddleware extensionFor options b) ''group'' =
     Some (case group options of Some g \<Rightarrow> g | None \<Rightarrow> '''')"
  by (simp add: asMiddleware_def Let_def)

text \<open>
  C9. With no \<open>group\<close> option, \<open>asMiddleware\<close> tags the binding with the empty group, and
  so does every registration through \<open>registerMiddleware\<close> that succeeds, for a function
  as for a provider class; the binding is stored in the context under its key. In a
  preference that holds the empty group, the empty group is ranked at the position of that
  marker, which is where every group outside the preference is ranked.
\<close>

theorem registerMiddleware_default_group:
  assumes "group options = None"
  shows "tagMap (asMiddleware extensionFor options b0) ''group'' = Some ''''
       \<and> (\<forall>ctx' b. registerMiddleware createBindingFromClass extensionFor ctx middleware options
                      = (Inr (ctx', b) :: 'x failure + _)
              \<longrightarrow> tagMap b ''group'' = Some '''' \<and> ctx' (key b) = Some b)
       \<and> ('''' \<in> set preference \<longrightarrow>
            group_rank preference '''' = position '''' preference
            \<and> (\<forall>g. g \<notin> set preference \<longrightarrow> group_rank preference g = group_rank preference ''''))"
proof -
  have "tagMap b ''group'' = Some '''' \<and> ctx' (key b) = Some b"
    if "registerMiddleware createBindingFromClass extensionFor ctx middleware options
          = (Inr (ctx', b) :: 'x failure + _)"
    for ctx' b
    using that assms
    by (auto simp: registerMiddleware_def createMiddlewareBinding_def asMiddleware_group Let_def
        split: middleware.splits option.splits if_splits)
  then show ?thesis
    using assms by (simp add: asMiddleware_group group_rank_def)
qed

theorem registerMiddleware_default_group_witness:
  "group \<lparr>injectConfiguration = None, providerClassName = None,
          options_key = Some ''middleware.log'', group = None, extensionPointName = None\<rparr> = None
   \<and> (registerMiddleware
        (\<lambda>c k. \<lparr>key = ''middleware.cls'', tagMap = Map.empty, bound = ProviderClass c\<rparr>)
        (\<lambda>n b. b\<lparr>tagMap := (tagMap b)(''extensionFor'' \<mapsto> n)\<rparr>)
        Map.empty (MiddlewareFunction ())
        \<lparr>injectConfiguration = None, providerClassName = None,
         options_key = Some ''middleware.log'', group = None, extensionPointName = None\<rparr>
      :: unit failure + (string \<rightharpoonup> (unit, unit) middleware Binding) \<times> (unit, unit) middleware Binding)
     = Inr ([''middleware.log'' \<mapsto>
              \<lparr>key = ''middleware.log'',
               tagMap = [''extensionFor'' \<mapsto> ''middleware.defaultChain'', ''group'' \<mapsto> ''''],
               bound = MiddlewareFunction ()\<rparr>],
            \<lparr>key = ''middleware.log'',
             tagMap = [''extensionFor'' \<mapsto> ''middleware.defaultChain'', ''group'' \<mapsto> ''''],
             bound = MiddlewareFunction ()\<rparr>)
   \<and> '''' \<in> set [''cors'', ''apiSpec'', '''']
   \<and> group_rank [''cors'', ''apiSpec'', ''''] '''' = 2
   \<and> group_rank [''cors'', ''apiSpec'', ''''] ''auth'' = 2"
  using registerMiddleware_default_group
    [of "\<lparr>injectConfiguration = None, providerClassName = None,
         options_key = Some ''middleware.log'', group = None, extensionPointName = None\<rparr>"
        "\<lambda>n b. b\<lparr>tagMap := (tagMap b)(''extensionFor'' \<mapsto> n)\<rparr>"
        "\<lparr>key = ''middleware.log'', tagMap = Map.empty, bound = MiddlewareFunction ()\<rparr>"
        "\<lambda>c k. \<lparr>key = ''middleware.cls'', tagMap = Map.empty, bound = ProviderClass c\<rparr>"
        Map.empty "MiddlewareFunction () :: (unit, unit) middleware"
        "[''cors'', ''apiSpec'', '''']"]
  by (simp add: registerMiddleware_def asMiddleware_def Let_def group_rank_def position_def
      MIDDLEWARE_EXTENSION_POINT_def)

section \<open>Properties of \<open>defineInterceptorProvider\<close>\<close>

text \<open>
  C10, as stated, fails: with the empty string as \<open>className\<close>, which is given and not
  omitted, and a factory without a name, the assertion fails although the runtime would
  make a class of any name.
\<close>

theorem defineInterceptorProvider_empty_className:
  "\<not> (Some '''' = (None :: string option) \<and> replace_non_word (name \<lparr>name = ''''\<rparr>) = '''')
   \<and> defineInterceptorProvider (\<lambda>n. Inr n :: unit + string) \<lparr>name = ''''\<rparr> (Some '''')
       = Inl (AssertionError ''className is missing and it cannot be inferred.'')"
  by (simp add: defineInterceptorProvider_def buildName_def replace_non_word_def)

lemma replace_non_word_empty: "replace_non_word s = '''' \<longleftrightarrow> s = ''''"
  by (simp add: replace_non_word_def)

text \<open>
  C10, amended. \<open>defineInterceptorProvider\<close> fails with the assertion error exactly when
  \<open>className\<close> is omitted or empty and the name of the factory is empty. Otherwise the
  class is made under \<open>className\<close> when that is given and not empty, and else under the
  name of the factory with its non-word characters replaced; the result is that class, or
  the exception that making it throws.
\<close>

theorem defineInterceptorProvider_result:
  "defineInterceptorProvider defineNamedClass middlewareFactory className =
     (if (className = None \<or> className = Some '''')
         \<and> replace_non_word (name middlewareFactory) = ''''
      then Inl (AssertionError ''className is missing and it cannot be inferred.'')
      else (case defineNamedClass
                   (if className = None \<or> className = Some ''''
                    then replace_non_word (name middlewareFactory) else the className) of
              Inl x \<Rightarrow> Inl (Thrown x)
            | Inr cls \<Rightarrow> Inr cls))"
  by (auto simp: defineInterceptorProvider_def buildName_def Let_def split: option.splits)

theorem defineInterceptorProvider_result_witness:
  "defineInterceptorProvider (\<lambda>n. Inr n :: unit + string) \<lparr>name = ''bound spy''\<rparr> None
     = Inr ''bound_spy''
   \<and> defineInterceptorProvider (\<lambda>n. Inr n :: unit + string) \<lparr>name = ''''\<rparr> None
     = Inl (AssertionError ''className is missing and it cannot be inferred.'')
   \<and> defineInterceptorProvider (\<lambda>n. Inr n :: unit + string) \<lparr>name = ''spy''\<rparr> (Some ''SpyProvider'')
     = Inr ''SpyProvider''"
  using defineInterceptorProvider_result [of "\<lambda>n. Inr n :: unit + string" "\<lparr>name = ''bound spy''\<rparr>" None]
    defineInterceptorProvider_result [of "\<lambda>n. Inr n :: unit + string" "\<lparr>name = ''''\<rparr>" None]
    defineInterceptorProvider_result [of "\<lambda>n. Inr n :: unit + string" "\<lparr>name = ''spy''\<rparr>" "Some ''SpyProvider''"]
  by (simp add: replace_non_word_def word_char_def)

end
